theory Spec2Isabelle
  imports Complex_Main
begin

section \<open>Optimal binary pebbling: the schedule formula and the recursive pebbler\<close>

text \<open>
  The development embeds the code cell of the hash-chain notebook that defines the
  schedule \<^verbatim>\<open>tS\<close> and the recursive pebbler \<^verbatim>\<open>P\<close>:
  \<^verbatim>\<open>
  tS = lambda k, r: 0 if r < 2**(k-1) else
         ((k+r)%2+ k+1 - ((2*r)%(2**(2**k-r).bit_length())).bit_length()) // 2

  def P(k, x):
      y = [None]*k + [x]
      i = k; g = 0
      for r in range(1, 2**k):
          for _ in range(tS(k, r)):
              z = y[i]
              if g == 0: i -= 1; g = 2**i
              y[i] = f(z)
              g -= 1
          yield
      yield y[0]
      for v in itertools.zip_longest(*(P(i-1, y[i]) for i in range(1, k+1))):
          yield next(filter(None, v))
  \<close>
  Python integers are unbounded and are modelled by \<open>int\<close> (and by \<open>nat\<close> where the
  code only ever has a non-negative value). A Python value that is either a Block or
  \<^verbatim>\<open>None\<close> is an \<open>'a option\<close>. The one-way function \<^verbatim>\<open>f\<close> is a global of the notebook
  built from the AES demo; it is a parameter \<open>f :: 'a \<Rightarrow> 'a\<close> of the model, and the type
  \<open>'a\<close> of Blocks is left open. In the notebook a Block is a 4 by 4 list of field
  elements. Where a property is shown on a concrete run, the Blocks are the natural
  numbers from \<open>1\<close> and \<open>f\<close> is the successor function, so that the chain from the seed
  \<open>1\<close> is \<open>1, 2, 3, \<dots>\<close>.
\<close>

subsection \<open>Python exceptions\<close>

datatype error = TypeError | IndexError | RuntimeError

subsection \<open>Integers: \<^verbatim>\<open>int.bit_length\<close>\<close>

text \<open>
  \<^verbatim>\<open>v.bit_length()\<close> is the number of bits of the absolute value of \<open>v\<close>, without
  sign and leading zeros; \<^verbatim>\<open>(0).bit_length()\<close> is \<open>0\<close>.
\<close>

fun bit_length_nat :: "nat \<Rightarrow> nat" where
  "bit_length_nat n = (if n = 0 then 0 else Suc (bit_length_nat (n div 2)))"

declare bit_length_nat.simps [simp del]

definition bit_length :: "int \<Rightarrow> nat" where
  "bit_length v = bit_length_nat (nat \<bar>v\<bar>)"

subsection \<open>The schedule formula \<^verbatim>\<open>tS\<close>\<close>

text \<open>
  The order \<open>k\<close> is a natural number here (negative orders are treated with the
  generator call below). For \<open>k = 0\<close> Python evaluates \<^verbatim>\<open>2**(k-1)\<close> to the float
  \<open>0.5\<close>, and an integer \<open>r\<close> is below \<open>0.5\<close> exactly when \<open>r < 1\<close>. Python's \<^verbatim>\<open>%\<close> and
  \<^verbatim>\<open>//\<close> with a positive right operand are \<open>mod\<close> and \<open>div\<close> on \<open>int\<close> (both floor).
\<close>

definition tS :: "nat \<Rightarrow> int \<Rightarrow> int" where
  "tS k r =
     (if (if k = 0 then r < 1 else r < 2 ^ (k - 1)) then 0
      else ((int k + r) mod 2 + int k + 1
              - int (bit_length ((2 * r) mod 2 ^ bit_length (2 ^ k - r)))) div 2)"

subsection \<open>Lists with Python indexing\<close>

text \<open>
  \<^verbatim>\<open>y[i]\<close> counts a negative index from the end and raises \<^verbatim>\<open>IndexError\<close> outside
  \<open>[-len, len)\<close>; \<^verbatim>\<open>y[i] = v\<close> does the same for the store.
\<close>

definition getitem :: "'b list \<Rightarrow> int \<Rightarrow> error + 'b" where
  "getitem ys i =
     (let n = int (length ys); j = (if i < 0 then n + i else i)
      in if 0 \<le> j \<and> j < n then Inr (ys ! nat j) else Inl IndexError)"

definition setitem :: "'b list \<Rightarrow> int \<Rightarrow> 'b \<Rightarrow> error + 'b list" where
  "setitem ys i v =
     (let n = int (length ys); j = (if i < 0 then n + i else i)
      in if 0 \<le> j \<and> j < n then Inr (ys[nat j := v]) else Inl IndexError)"

subsection \<open>The pebbler's local state and one advance\<close>

text \<open>
  The locals of one activation of \<^verbatim>\<open>P\<close> are the slot array \<open>y\<close>, the cursor \<open>i\<close> and
  the remaining count \<open>g\<close>. \<open>g\<close> is an integer as long as \<open>i \<ge> 0\<close>; \<^verbatim>\<open>2**i\<close> with a
  negative \<open>i\<close> is a float that is an exact binary fraction, so \<open>g\<close> is a rational
  number in the model and \<^verbatim>\<open>2**i\<close> is \<open>2 powi i\<close>.

  One pass through the body of the inner loop is \<open>advance\<close>. The right-hand side
  \<^verbatim>\<open>f(z)\<close> is evaluated before the store. \<^verbatim>\<open>f\<close> is defined on Blocks only: applying it
  to \<^verbatim>\<open>None\<close> (an empty slot) fails inside the AES code with a \<^verbatim>\<open>TypeError\<close>.
\<close>

type_synonym 'a pebbler = "'a option list \<times> int \<times> rat"

fun advance :: "('a \<Rightarrow> 'a) \<Rightarrow> 'a pebbler \<Rightarrow> error + 'a pebbler" where
  "advance f (y, i, g) =
     (case getitem y i of
        Inl e \<Rightarrow> Inl e
      | Inr z \<Rightarrow>
          (let (i', g') = (if g = 0 then (i - 1, 2 powi (i - 1)) else (i, g))
           in case z of
                None \<Rightarrow> Inl TypeError
              | Some b \<Rightarrow>
                  (case setitem y i' (Some (f b)) of
                     Inl e \<Rightarrow> Inl e
                   | Inr y' \<Rightarrow> Inr (y', i', g' - 1))))"

text \<open>\<^verbatim>\<open>for _ in range(n)\<close>: the body \<open>n\<close> times, stopping at the first exception.\<close>

fun advances :: "('a \<Rightarrow> 'a) \<Rightarrow> nat \<Rightarrow> 'a pebbler \<Rightarrow> error + 'a pebbler" where
  "advances f 0 s = Inr s"
| "advances f (Suc n) s =
     (case advance f s of Inl e \<Rightarrow> Inl e | Inr s' \<Rightarrow> advances f n s')"

subsection \<open>Rounds and generators\<close>

text \<open>
  A generator is modelled by what it does when it is driven to the end: the list of
  its rounds (one per \<^verbatim>\<open>yield\<close>) and the exception that ended it, if any (\<open>None\<close>
  for normal exhaustion). A round records the value yielded (\<open>out\<close>, \<open>None\<close> for the
  bare \<^verbatim>\<open>yield\<close>), and two observations of the run that are not values of the
  program: \<open>evals\<close>, the number of calls of \<^verbatim>\<open>f\<close> made between the previous
  \<^verbatim>\<open>yield\<close> and this one, and \<open>held\<close>, the slot arrays of the activations of \<^verbatim>\<open>P\<close>
  that exist at this \<^verbatim>\<open>yield\<close> (the generator's own array first, then those of its
  sub-generators that have not been found exhausted).
\<close>

record 'a round =
  out :: "'a option"
  evals :: nat
  held :: "'a option list list"

type_synonym 'a generator = "'a round list \<times> error option"

text \<open>
  The build loop \<^verbatim>\<open>for r in range(1, 2**k)\<close>, over the list of the remaining values
  of \<open>r\<close>. \<^verbatim>\<open>range(tS(k, r))\<close> is empty for a negative bound, hence \<open>nat\<close>.
\<close>

fun build :: "('a \<Rightarrow> 'a) \<Rightarrow> nat \<Rightarrow> int list \<Rightarrow> 'a pebbler
                \<Rightarrow> 'a round list \<times> (error + 'a pebbler)" where
  "build f k [] s = ([], Inr s)"
| "build f k (r # rs) s =
     (case advances f (nat (tS k r)) s of
        Inl e \<Rightarrow> ([], Inl e)
      | Inr s' \<Rightarrow>
          (case build f k rs s' of
             (rounds, res) \<Rightarrow>
               (\<lparr>out = None, evals = nat (tS k r), held = [fst s']\<rparr> # rounds, res)))"

text \<open>
  The arguments of \<^verbatim>\<open>zip_longest\<close>: the generator expression is unpacked by \<^verbatim>\<open>*\<close>, so
  every \<^verbatim>\<open>y[i]\<close> is read (and every generator object created) before the first
  sub-generator runs.
\<close>

fun seeds :: "'b list \<Rightarrow> nat list \<Rightarrow> error + 'b list" where
  "seeds y [] = Inr []"
| "seeds y (i # is) =
     (case getitem y (int i) of
        Inl e \<Rightarrow> Inl e
      | Inr v \<Rightarrow> (case seeds y is of Inl e \<Rightarrow> Inl e | Inr vs \<Rightarrow> Inr (v # vs)))"

text \<open>
  One step of \<^verbatim>\<open>itertools.zip_longest\<close>: \<^verbatim>\<open>next\<close> on every argument in order. An
  argument that still has a round contributes it; an exhausted one contributes the
  fill value; one that raises ends the step with its exception.
\<close>

fun poll :: "('r list \<times> error option) list \<Rightarrow> error + 'r option list" where
  "poll [] = Inr []"
| "poll ((r # rs, e) # ss) =
     (case poll ss of Inl e' \<Rightarrow> Inl e' | Inr v \<Rightarrow> Inr (Some r # v))"
| "poll (([], Some e) # ss) = Inl e"
| "poll (([], None) # ss) =
     (case poll ss of Inl e' \<Rightarrow> Inl e' | Inr v \<Rightarrow> Inr (None # v))"

definition advance_all :: "('r list \<times> error option) list \<Rightarrow> ('r list \<times> error option) list" where
  "advance_all ss = map (\<lambda>(rs, e). (tl rs, e)) ss"

text \<open>
  \<^verbatim>\<open>zip_longest\<close> stops when a step finds every argument exhausted. The result is the
  list of the tuples produced and the exception that ended the iteration, if any.
\<close>

function zip_longest :: "('r list \<times> error option) list \<Rightarrow> 'r option list list \<times> error option" where
  "zip_longest ss =
     (case poll ss of
        Inl e \<Rightarrow> ([], Some e)
      | Inr v \<Rightarrow>
          if list_all (\<lambda>c. c = None) v then ([], None)
          else (case zip_longest (advance_all ss) of (rows, e) \<Rightarrow> (v # rows, e)))"
  by pat_completeness auto
termination
proof (relation "measure (\<lambda>ss. sum_list (map (\<lambda>s. length (fst s)) ss))")
  show "wf (measure (\<lambda>ss::('r list \<times> error option) list.
              sum_list (map (\<lambda>s. length (fst s)) ss)))"
    by simp
next
  fix ss :: "('r list \<times> error option) list" and v
  assume pv: "poll ss = Inr v" and some: "\<not> list_all (\<lambda>c. c = None) v"
  have le: "sum_list (map (\<lambda>s. length (fst s)) (advance_all ts))
              \<le> sum_list (map (\<lambda>s. length (fst s)) ts)"
    for ts :: "('r list \<times> error option) list"
    by (induction ts) (auto simp: advance_all_def)
  have lt: "poll ts = Inr w \<Longrightarrow> \<not> list_all (\<lambda>c. c = None) w \<Longrightarrow>
              sum_list (map (\<lambda>s. length (fst s)) (advance_all ts))
                < sum_list (map (\<lambda>s. length (fst s)) ts)"
    for ts :: "('r list \<times> error option) list" and w
  proof (induction ts arbitrary: w rule: poll.induct)
    case 1
    then show ?case by simp
  next
    case (2 r rs e ss)
    from le [of ss] show ?case by (simp add: advance_all_def)
  next
    case (3 e ss)
    then show ?case by simp
  next
    case (4 ss)
    then show ?case by (auto simp: advance_all_def split: sum.splits)
  qed
  from lt [OF pv some]
  show "(advance_all ss, ss) \<in> measure (\<lambda>ss. sum_list (map (\<lambda>s. length (fst s)) ss))"
    by simp
qed

declare zip_longest.simps [simp del]

text \<open>
  \<^verbatim>\<open>next(filter(None, v))\<close>: the first entry of the tuple that Python counts as true.
  A Block is a non-empty (4 by 4) list, which is true whatever its entries are, so
  exactly the \<^verbatim>\<open>None\<close> entries are dropped. When nothing is left, \<^verbatim>\<open>next\<close> raises \<^verbatim>\<open>StopIteration\<close>
  inside the generator, which Python turns into a \<^verbatim>\<open>RuntimeError\<close>.
\<close>

definition pick :: "'a option list \<Rightarrow> error + 'a option" where
  "pick v = (case filter (\<lambda>c. c \<noteq> None) v of [] \<Rightarrow> Inl RuntimeError | b # _ \<Rightarrow> Inr b)"

text \<open>The rounds a step of \<^verbatim>\<open>zip_longest\<close> obtained, and the tuple of values it holds.\<close>

fun yielded :: "'r option list \<Rightarrow> 'r list" where
  "yielded [] = []"
| "yielded (None # v) = yielded v"
| "yielded (Some r # v) = r # yielded v"

definition tuple_of :: "'a round option list \<Rightarrow> 'a option list" where
  "tuple_of v = map (\<lambda>c. case c of None \<Rightarrow> None | Some r \<Rightarrow> out r) v"

text \<open>
  The final loop \<^verbatim>\<open>for v in zip_longest(...): yield next(filter(None, v))\<close>, over
  the tuples that \<^verbatim>\<open>zip_longest\<close> produces one at a time. The calls of \<^verbatim>\<open>f\<close> in such
  a round are those of the sub-generators stepped in it; the parent's array \<open>y\<close> stays
  referenced by its frame until the parent ends.
\<close>

fun emit :: "'a option list \<Rightarrow> 'a round option list list \<times> error option \<Rightarrow> 'a generator" where
  "emit y ([], e) = ([], e)"
| "emit y (v # rows, e) =
     (case pick (tuple_of v) of
        Inl e' \<Rightarrow> ([], Some e')
      | Inr b \<Rightarrow>
          (case emit y (rows, e) of
             (rounds, e'') \<Rightarrow>
               (\<lparr>out = b, evals = sum_list (map evals (yielded v)),
                 held = y # concat (map held (yielded v))\<rparr> # rounds, e'')))"

subsection \<open>The recursive pebbler \<^verbatim>\<open>P\<close>\<close>

function P :: "('a \<Rightarrow> 'a) \<Rightarrow> nat \<Rightarrow> 'a option \<Rightarrow> 'a generator" where
  "P f k x =
     (case build f k (map int [1..<2 ^ k]) (replicate k None @ [x], int k, 0) of
        (rounds, Inl e) \<Rightarrow> (rounds, Some e)
      | (rounds, Inr (y, i, g)) \<Rightarrow>
          (case getitem y 0 of
             Inl e \<Rightarrow> (rounds, Some e)
           | Inr y0 \<Rightarrow>
               (case seeds y [1..<k + 1] of
                  Inl e \<Rightarrow> (rounds @ [\<lparr>out = y0, evals = 0, held = [y]\<rparr>], Some e)
                | Inr xs \<Rightarrow>
                    (case emit y (zip_longest
                                   (map (\<lambda>(i, x'). P f (i - 1) x') (zip [1..<k + 1] xs))) of
                       (rounds', e) \<Rightarrow>
                         (rounds @ \<lparr>out = y0, evals = 0, held = [y]\<rparr> # rounds', e)))))"
  by pat_completeness auto
termination
  by (relation "measure (\<lambda>(f, k, x). k)") (auto dest!: set_zip_leftD)

declare P.simps [simp del]

subsection \<open>Calling \<^verbatim>\<open>P\<close> with an arbitrary integer order\<close>

text \<open>
  \<^verbatim>\<open>P\<close> is a generator function: the call \<^verbatim>\<open>P(k, x)\<close> binds the arguments and returns
  a generator object without running any statement of the body, whatever \<open>k\<close> is.
  The body starts at the first \<^verbatim>\<open>next\<close>. For \<open>k < 0\<close> the first statements succeed
  (\<^verbatim>\<open>[None]*k\<close> is the empty list), and \<^verbatim>\<open>range(1, 2**k)\<close> raises \<^verbatim>\<open>TypeError\<close>, since
  \<^verbatim>\<open>2**k\<close> is a float.
\<close>

datatype 'a generator_object = Created int "'a option"

definition create :: "int \<Rightarrow> 'a option \<Rightarrow> error + 'a generator_object" where
  "create k x = Inr (Created k x)"

fun traverse :: "('a \<Rightarrow> 'a) \<Rightarrow> 'a generator_object \<Rightarrow> 'a generator" where
  "traverse f (Created k x) = (if k < 0 then ([], Some TypeError) else P f (nat k) x)"

subsection \<open>Auxiliary sums for the analysis of the schedule\<close>

text \<open>
  These functions are not part of the program. They name the pieces into which the
  sum of \<open>tS (n + 2)\<close> over its rounds decomposes: \<open>evn c e\<close> is the indicator of
  \<open>c + e\<close> being even, \<open>wup n e\<close> is the value of \<open>tS (n + 2)\<close> at round
  \<open>2 ^ (n + 1) + e\<close> for \<open>0 < e < 2 ^ n\<close>, and \<open>Tsum n\<close> is the sum of \<open>tS n\<close>
  over the rounds \<open>1, \<dots>, 2 ^ n - 1\<close>.
\<close>

definition evn :: "nat \<Rightarrow> nat \<Rightarrow> int" where
  "evn c e = (if even (c + e) then 1 else 0)"

definition wup :: "nat \<Rightarrow> nat \<Rightarrow> int" where
  "wup n e = ((int n + int e) mod 2 + int n + 2 - int (bit_length_nat e)) div 2"

definition Wsum :: "nat \<Rightarrow> int" where
  "Wsum n = (\<Sum>e = 1..<2 ^ n. wup n e)"

definition Dsum :: "nat \<Rightarrow> int" where
  "Dsum n = (\<Sum>e = 1..<2 ^ n. evn n e)"

definition Csum :: "nat \<Rightarrow> int" where
  "Csum n = (\<Sum>e = 2 ^ n..<2 ^ Suc n. evn (Suc n) e)"

definition Tsum :: "nat \<Rightarrow> int" where
  "Tsum n = (\<Sum>r = 1..<2 ^ n. tS n (int r))"

subsection \<open>The run of the pebbler, piece by piece\<close>

text \<open>
  The functions of this subsection are not part of the program: they name the parts
  of a run of \<^verbatim>\<open>P(k, x)\<close> on a Block \<open>x\<close> so that the properties below can speak about
  them. \<open>done_before k r\<close> is the number of advances made in the rounds before
  round \<open>r\<close>. \<open>slots f k x j m\<close> is the slot array after \<open>m\<close> advances with the cursor
  at slot \<open>j\<close>: the slots below \<open>j\<close> are empty, slot \<open>j\<close> holds \<open>f\<close> applied \<open>m\<close> times
  to \<open>x\<close>, and every slot \<open>l\<close> above it holds \<open>f\<close> applied \<open>2 ^ k - 2 ^ l\<close> times to \<open>x\<close>.
  \<open>building f k x m s\<close> says that \<open>s\<close> is the state of the locals after \<open>m\<close> advances.
\<close>

definition done_before :: "nat \<Rightarrow> nat \<Rightarrow> nat" where
  "done_before k r = (\<Sum>q = 1..<r. nat (tS k (int q)))"

definition slots :: "('a \<Rightarrow> 'a) \<Rightarrow> nat \<Rightarrow> 'a \<Rightarrow> nat \<Rightarrow> nat \<Rightarrow> 'a option list" where
  "slots f k x j m =
     replicate j None @ Some ((f ^^ m) x) # map (\<lambda>l. Some ((f ^^ (2 ^ k - 2 ^ l)) x)) [Suc j..<Suc k]"

definition building :: "('a \<Rightarrow> 'a) \<Rightarrow> nat \<Rightarrow> 'a \<Rightarrow> nat \<Rightarrow> 'a pebbler \<Rightarrow> bool" where
  "building f k x m s \<longleftrightarrow>
     (\<exists>j\<le>k. s = (slots f k x j m, int j, of_nat (2 ^ k - 2 ^ j - m))
        \<and> m + 2 ^ j \<le> 2 ^ k \<and> (j < k \<longrightarrow> 2 ^ k < m + 2 * 2 ^ j))"

text \<open>
  \<open>final_slots\<close> is the slot array when the build loop has ended, \<open>build_rounds\<close> the
  rounds of the build loop, \<open>first_round\<close> the round of \<^verbatim>\<open>yield y[0]\<close>, and
  \<open>sub_generators\<close> the arguments of \<^verbatim>\<open>zip_longest\<close>: the generator \<^verbatim>\<open>P(i-1, y[i])\<close> for
  \<open>i = 1, \<dots>, k\<close>.
\<close>

definition final_slots :: "('a \<Rightarrow> 'a) \<Rightarrow> nat \<Rightarrow> 'a \<Rightarrow> 'a option list" where
  "final_slots f k x = map (\<lambda>l. Some ((f ^^ (2 ^ k - 2 ^ l)) x)) [0..<Suc k]"

definition build_rounds :: "('a \<Rightarrow> 'a) \<Rightarrow> nat \<Rightarrow> 'a \<Rightarrow> 'a round list" where
  "build_rounds f k x =
     fst (build f k (map int [1..<2 ^ k]) (replicate k None @ [Some x], int k, 0))"

definition first_round :: "('a \<Rightarrow> 'a) \<Rightarrow> nat \<Rightarrow> 'a \<Rightarrow> 'a round" where
  "first_round f k x =
     \<lparr>out = Some ((f ^^ (2 ^ k - 1)) x), evals = 0, held = [final_slots f k x]\<rparr>"

definition sub_generators :: "('a \<Rightarrow> 'a) \<Rightarrow> nat \<Rightarrow> 'a \<Rightarrow> 'a generator list" where
  "sub_generators f k x = map (\<lambda>i. P f (i - 1) (Some ((f ^^ (2 ^ k - 2 ^ i)) x))) [1..<k + 1]"

text \<open>
  \<open>step_of s t\<close> is what the generator \<open>s\<close> contributes to step \<open>t\<close> of \<^verbatim>\<open>zip_longest\<close>
  (counted from \<open>0\<close>): its round, or the fill value once it is exhausted. \<open>rows_of\<close>
  are the first \<open>n\<close> tuples, \<open>longest\<close> the number of rounds of the longest argument.
  \<open>first_value\<close> is the result of \<^verbatim>\<open>next(filter(None, v))\<close> when there is one, and
  \<open>round_of\<close> the round the final loop makes of a tuple.
\<close>

definition step_of :: "'r list \<times> error option \<Rightarrow> nat \<Rightarrow> 'r option" where
  "step_of s t = (if t < length (fst s) then Some (fst s ! t) else None)"

definition rows_of :: "('r list \<times> error option) list \<Rightarrow> nat \<Rightarrow> 'r option list list" where
  "rows_of ss n = map (\<lambda>t. map (\<lambda>s. step_of s t) ss) [0..<n]"

definition longest :: "('r list \<times> error option) list \<Rightarrow> nat" where
  "longest ss = foldr (\<lambda>s m. max (length (fst s)) m) ss 0"

definition first_value :: "'a option list \<Rightarrow> 'a option" where
  "first_value v = (case filter (\<lambda>c. c \<noteq> None) v of [] \<Rightarrow> None | b # _ \<Rightarrow> b)"

definition round_of :: "'a option list \<Rightarrow> 'a round option list \<Rightarrow> 'a round" where
  "round_of y v =
     \<lparr>out = first_value (tuple_of v), evals = sum_list (map evals (yielded v)),
      held = y # concat (map held (yielded v))\<rparr>"

definition emission_rounds :: "('a \<Rightarrow> 'a) \<Rightarrow> nat \<Rightarrow> 'a \<Rightarrow> 'a round list" where
  "emission_rounds f k x =
     map (round_of (final_slots f k x)) (rows_of (sub_generators f k x) (2 ^ k - 1))"

text \<open>
  The expected output: \<open>chain_out f k x t\<close> is what round \<open>t\<close> (counted from \<open>0\<close>) of
  \<^verbatim>\<open>P(k, x)\<close> yields, and \<open>sub_out f k x t i\<close> what the sub-generator \<^verbatim>\<open>P(i-1, y[i])\<close>
  contributes to the tuple of step \<open>t\<close>.
\<close>

definition chain_out :: "('a \<Rightarrow> 'a) \<Rightarrow> nat \<Rightarrow> 'a \<Rightarrow> nat \<Rightarrow> 'a option" where
  "chain_out f k x t = (if t < 2 ^ k - 1 then None else Some ((f ^^ (2 ^ Suc k - 2 - t)) x))"

definition traversal_ok :: "('a \<Rightarrow> 'a) \<Rightarrow> nat \<Rightarrow> 'a \<Rightarrow> bool" where
  "traversal_ok f k x \<longleftrightarrow>
     snd (P f k (Some x)) = None \<and> length (fst (P f k (Some x))) = 2 ^ Suc k - 1
     \<and> (\<forall>t<2 ^ Suc k - 1. out (fst (P f k (Some x)) ! t) = chain_out f k x t)"

definition sub_out :: "('a \<Rightarrow> 'a) \<Rightarrow> nat \<Rightarrow> 'a \<Rightarrow> nat \<Rightarrow> nat \<Rightarrow> 'a option" where
  "sub_out f k x t i =
     (if 2 ^ (i - 1) \<le> Suc t \<and> Suc t < 2 ^ i then Some ((f ^^ (2 ^ k - 2 - t)) x) else None)"

text \<open>
  \<open>schedule_of r\<close> is what is left of a round when the Blocks are forgotten: whether it
  yields \<^verbatim>\<open>None\<close>, how often it calls \<^verbatim>\<open>f\<close>, and which slots of the arrays are empty.
\<close>

definition schedule_of :: "'a round \<Rightarrow> bool \<times> nat \<times> bool list list" where
  "schedule_of r = (out r = None, evals r, map (map (\<lambda>c. c = None)) (held r))"

text \<open>
  \<open>live_blocks r\<close> is the number of filled slots in the slot arrays that exist at round
  \<open>r\<close>, and \<open>distinct_blocks r\<close> the number of different Blocks in these slots (a Block
  handed to a sub-generator is in the array of the parent and in that of the
  sub-generator).
\<close>

definition live_blocks :: "'a round \<Rightarrow> nat" where
  "live_blocks r = sum_list (map (\<lambda>y. length (filter (\<lambda>c. c \<noteq> None) y)) (held r))"

definition distinct_blocks :: "'a round \<Rightarrow> nat" where
  "distinct_blocks r = length (remdups (filter (\<lambda>c. c \<noteq> None) (concat (held r))))"

section \<open>Properties of the schedule formula\<close>

subsection \<open>Bit length\<close>

lemma bl_0 [simp]: "bit_length_nat 0 = 0"
  by (simp add: bit_length_nat.simps)

lemma bl_pos: "0 < n \<Longrightarrow> bit_length_nat n = Suc (bit_length_nat (n div 2))"
  by (subst bit_length_nat.simps) simp

lemma bl_upper: "n < 2 ^ bit_length_nat n"
proof (induction n rule: bit_length_nat.induct)
  case (1 n)
  show ?case
  proof (cases "n = 0")
    case True
    then show ?thesis by simp
  next
    case False
    with 1 have "n div 2 < 2 ^ bit_length_nat (n div 2)" by simp
    with False show ?thesis by (simp add: bl_pos)
  qed
qed

lemma bl_lower: "0 < n \<Longrightarrow> 2 ^ (bit_length_nat n - 1) \<le> n"
proof (induction n rule: bit_length_nat.induct)
  case (1 n)
  show ?case
  proof (cases "n div 2 = 0")
    case True
    with 1(2) have "n = 1" by (simp add: div_eq_0_iff) 
    then show ?thesis by (simp add: bl_pos)
  next
    case False
    define c where "c = bit_length_nat (n div 2) - 1"
    from False 1 have "2 ^ c \<le> n div 2" by (simp add: c_def)
    then have "2 * 2 ^ c \<le> n" by linarith
    moreover from False have "bit_length_nat (n div 2) = Suc c"
      by (simp add: bl_pos c_def)
    ultimately show ?thesis using 1(2) by (simp add: bl_pos)
  qed
qed

lemma bl_le: "n < 2 ^ j \<Longrightarrow> bit_length_nat n \<le> j"
proof (rule ccontr)
  assume a: "n < 2 ^ j" and "\<not> bit_length_nat n \<le> j"
  then have j: "j \<le> bit_length_nat n - 1" and pos: "0 < n"
    by (auto intro: Nat.gr0I)
  have "(2::nat) ^ j \<le> 2 ^ (bit_length_nat n - 1)"
    using j by (intro power_increasing) simp_all
  with bl_lower [OF pos] a show False by linarith
qed

lemma bl_unique: "2 ^ j \<le> n \<Longrightarrow> n < 2 ^ Suc j \<Longrightarrow> bit_length_nat n = Suc j"
proof -
  assume a: "2 ^ j \<le> n" and b: "n < 2 ^ Suc j"
  have "bit_length_nat n \<le> Suc j" using b by (rule bl_le)
  moreover have "\<not> bit_length_nat n \<le> j"
  proof
    assume "bit_length_nat n \<le> j"
    then have "(2::nat) ^ bit_length_nat n \<le> 2 ^ j" by (simp add: power_increasing)
    with bl_upper [of n] a show False by simp
  qed
  ultimately show ?thesis by simp
qed

lemma bl_double: "0 < n \<Longrightarrow> bit_length_nat (2 * n) = Suc (bit_length_nat n)"
  by (subst bl_pos) simp_all

lemma bl_pow2 [simp]: "bit_length_nat (2 ^ j) = Suc j"
  by (rule bl_unique) simp_all

lemma bit_length_int [simp]: "bit_length (int n) = bit_length_nat n"
  by (simp add: bit_length_def)

subsection \<open>The schedule in the upper half of the rounds\<close>

text \<open>
  \<open>tS (n + 1)\<close> is \<open>0\<close> on the rounds below \<open>2 ^ n\<close>. Above, the round \<open>r\<close> is best counted from
  the end, \<open>d = 2 ^ (n + 1) - r\<close>: the bit lengths in the formula depend on \<open>d\<close> only, which
  relates the schedule of order \<open>n + 2\<close> to that of order \<open>n + 1\<close>.
\<close>

lemma tS_low: "r < 2 ^ n \<Longrightarrow> tS (Suc n) (int r) = 0"
  by (simp add: tS_def)

lemma tS_high:
  assumes "2 ^ n \<le> r" "r \<le> 2 ^ Suc n"
  shows "tS (Suc n) (int r) =
      ((int (Suc n) + int r) mod 2 + int (Suc n) + 1
         - int (bit_length_nat ((2 * r) mod 2 ^ bit_length_nat (2 ^ Suc n - r)))) div 2"
proof -
  have a: "\<not> int r < 2 ^ n"
    using assms(1) by (metis of_nat_less_iff of_nat_numeral of_nat_power not_less)
  have b: "(2::int) ^ Suc n - int r = int (2 ^ Suc n - r)"
    using assms(2) by (simp add: of_nat_diff)
  have c: "(2 * int r) mod 2 ^ j = int ((2 * r) mod 2 ^ j)" for j
    by (simp add: zmod_int)
  show ?thesis
    unfolding tS_def using a by (simp only: b c bit_length_int) simp
qed

lemma tS_top: "tS (Suc k) (int (2 ^ k)) = int (k div 2) + 1"
proof -
  have "tS (Suc k) (int (2 ^ k)) = ((int (Suc k) + int (2 ^ k)) mod 2 + int (Suc k) + 1) div 2"
    by (subst tS_high) simp_all
  also have "\<dots> = int (k div 2) + 1"
  proof (cases k)
    case 0
    then show ?thesis by simp
  next
    case (Suc j)
    then have "even ((2::nat) ^ k)" by simp
    then obtain q where q: "(2::nat) ^ k = 2 * q" by (elim evenE)
    show ?thesis unfolding q by (simp add: zdiv_int) presburger
  qed
  finally show ?thesis .
qed

lemma par_shift:
  fixes a c :: int
  shows "((a + 1) mod 2 + c + 1) div 2 = (a mod 2 + c) div 2 + (if even a then 1 else 0)"
proof (cases "even a")
  case True
  then have "a mod 2 = 0" "(a + 1) mod 2 = 1" by presburger+
  then show ?thesis using True by simp
next
  case False
  then have "a mod 2 = 1" "(a + 1) mod 2 = 0" by presburger+
  then show ?thesis using False by (simp add: add.commute)
qed

lemma par_even_add:
  fixes a :: int
  shows "(a + 2 * b) mod 2 = a mod 2"
  by simp

lemma tS_upper_half:
  assumes "0 < e" "e < 2 ^ n"
  shows "tS (Suc (Suc n)) (int (2 ^ Suc n + e)) =
           ((int n + int e) mod 2 + int n + 2 - int (bit_length_nat e)) div 2"
proof -
  have d: "(2::nat) ^ Suc (Suc n) - (2 ^ Suc n + e) = 2 ^ Suc n - e" by simp
  have L: "bit_length_nat (2 ^ Suc n - e) = Suc n"
    using assms by (intro bl_unique) simp_all
  have "(2 * (2 ^ Suc n + e)) mod 2 ^ Suc n = (2 * e + 2 * 2 ^ Suc n) mod 2 ^ Suc n"
    by (simp add: algebra_simps)
  also have "\<dots> = (2 * e) mod 2 ^ Suc n" by (rule mod_mult_self1)
  also have "\<dots> = 2 * e" using assms by simp
  finally have m: "(2 * (2 ^ Suc n + e)) mod 2 ^ Suc n = 2 * e" .
  have r1: "2 ^ Suc n \<le> 2 ^ Suc n + e" by simp
  have r2: "2 ^ Suc n + e \<le> 2 ^ Suc (Suc n)" using assms by simp
  have "int (Suc (Suc n)) + int (2 ^ Suc n + e) = (int n + int e) + 2 * (1 + 2 ^ n)"
    by simp
  then have par: "(int (Suc (Suc n)) + int (2 ^ Suc n + e)) mod 2 = (int n + int e) mod 2"
    by (simp only: par_even_add)
  have "tS (Suc (Suc n)) (int (2 ^ Suc n + e)) =
      ((int n + int e) mod 2 + int (Suc (Suc n)) + 1 - int (Suc (bit_length_nat e))) div 2"
    using assms(1) by (simp only: tS_high [OF r1 r2] d L m bl_double par)
  also have "(int n + int e) mod 2 + int (Suc (Suc n)) + 1 - int (Suc (bit_length_nat e))
               = (int n + int e) mod 2 + int n + 2 - int (bit_length_nat e)"
    by simp
  finally show ?thesis .
qed

lemma tS_shift:
  assumes "2 ^ n \<le> e" "e < 2 ^ Suc n"
  shows "tS (Suc (Suc n)) (int (2 ^ Suc n + e)) =
           tS (Suc n) (int e) + (if even (Suc n + e) then 1 else 0)"
proof -
  define d where "d = 2 ^ Suc n - e"
  define L where "L = bit_length_nat d"
  have d: "(2::nat) ^ Suc (Suc n) - (2 ^ Suc n + e) = d" by (simp add: d_def)
  have "d < 2 ^ Suc n" using assms by (simp add: d_def) 
  then have "L \<le> Suc n" unfolding L_def by (rule bl_le)
  then have "(2::nat) ^ L dvd 2 ^ Suc (Suc n)" by (intro le_imp_power_dvd) simp
  then obtain c where c: "(2::nat) ^ Suc (Suc n) = c * 2 ^ L" by (auto simp: dvd_def mult.commute)
  have "2 * (2 ^ Suc n + e) = 2 * e + 2 ^ Suc (Suc n)" by simp
  then have "(2 * (2 ^ Suc n + e)) mod 2 ^ L = (2 * e + c * 2 ^ L) mod 2 ^ L"
    by (simp only: c)
  also have "\<dots> = (2 * e) mod 2 ^ L" by (rule mod_mult_self1)
  finally have m: "(2 * (2 ^ Suc n + e)) mod 2 ^ L = (2 * e) mod 2 ^ L" .
  define B where "B = int (bit_length_nat ((2 * e) mod 2 ^ L))"
  have r1: "2 ^ Suc n \<le> 2 ^ Suc n + e" by simp
  have r2: "2 ^ Suc n + e \<le> 2 ^ Suc (Suc n)" using assms by simp
  have r3: "e \<le> 2 ^ Suc n" using assms by simp
  have "int (Suc (Suc n)) + int (2 ^ Suc n + e) = (int (Suc n) + int e + 1) + 2 * 2 ^ n"
    by simp
  then have par: "(int (Suc (Suc n)) + int (2 ^ Suc n + e)) mod 2 = (int (Suc n) + int e + 1) mod 2"
    by (simp only: par_even_add)
  have 1: "tS (Suc (Suc n)) (int (2 ^ Suc n + e)) =
      ((int (Suc n) + int e + 1) mod 2 + int (Suc (Suc n)) + 1 - B) div 2"
    by (simp only: tS_high [OF r1 r2] d m L_def [symmetric] B_def par)
  have 2: "tS (Suc n) (int e) = ((int (Suc n) + int e) mod 2 + int (Suc n) + 1 - B) div 2"
    by (simp only: tS_high [OF assms(1) r3] d_def [symmetric] L_def [symmetric] B_def)
  have "(int (Suc n) + int e + 1) mod 2 + int (Suc (Suc n)) + 1 - B
          = (int (Suc n) + int e + 1) mod 2 + (int (Suc n) + 1 - B) + 1" by simp
  moreover have "(int (Suc n) + int e) mod 2 + int (Suc n) + 1 - B
          = (int (Suc n) + int e) mod 2 + (int (Suc n) + 1 - B)" by simp
  moreover have "even (int (Suc n) + int e) = even (Suc n + e)"
    by (metis even_of_nat of_nat_add)
  ultimately show ?thesis unfolding 1 2 by (simp only: par_shift)
qed

subsection \<open>The sum of the schedule, by induction on the order\<close>

lemma evn_pair: "evn c e + evn c (Suc e) = 1"
  by (simp add: evn_def)

lemma evn_count: "(\<Sum>e = a..<a + 2 * m. evn c e) = int m"
proof (induction m)
  case 0
  then show ?case by simp
next
  case (Suc m)
  have "(\<Sum>e = a..<a + 2 * Suc m. evn c e) = (\<Sum>e = a..<Suc (Suc (a + 2 * m)). evn c e)"
    by simp
  also have "\<dots> = (\<Sum>e = a..<a + 2 * m. evn c e) + evn c (a + 2 * m) + evn c (Suc (a + 2 * m))"
    by (simp add: sum.atLeastLessThan_Suc)
  also have "\<dots> = int (Suc m)" using Suc evn_pair [of c "a + 2 * m"] by simp
  finally show ?case .
qed

lemma evn_count_pow: "(\<Sum>e = a..<a + 2 ^ Suc n. evn c e) = 2 ^ n"
  using evn_count [where a = a and m = "2 ^ n" and c = c] by simp

lemma wup_top:
  assumes "2 ^ n \<le> e" "e < 2 ^ Suc n"
  shows "wup (Suc n) e = 1"
proof -
  have "bit_length_nat e = Suc n" using assms by (rule bl_unique)
  then have "wup (Suc n) e = ((int (Suc n) + int e) mod 2 + 2) div 2"
    by (simp add: wup_def)
  also have "\<dots> = 1" by presburger
  finally show ?thesis .
qed

lemma wup_shift: "wup (Suc n) e = wup n e + evn n e"
proof -
  have "int (Suc n) + int e = (int n + int e) + 1" by simp
  moreover have "(int n + int e + 1) mod 2 + int (Suc n) + 2 - int (bit_length_nat e)
           = (int n + int e + 1) mod 2 + (int n + 2 - int (bit_length_nat e)) + 1" by simp
  moreover have "(int n + int e) mod 2 + int n + 2 - int (bit_length_nat e)
          = (int n + int e) mod 2 + (int n + 2 - int (bit_length_nat e))" by simp
  moreover have "even (int n + int e) = even (n + e)"
    by (metis even_of_nat of_nat_add)
  ultimately show ?thesis unfolding wup_def evn_def by (simp only: par_shift)
qed

lemma Wsum_step: "Wsum (Suc n) = Wsum n + Dsum n + 2 ^ n"
proof -
  have "Wsum (Suc n) = (\<Sum>e = 1..<2 ^ n. wup (Suc n) e) + (\<Sum>e = 2 ^ n..<2 ^ Suc n. wup (Suc n) e)"
    unfolding Wsum_def by (rule sum.atLeastLessThan_concat [symmetric]) simp_all
  also have "(\<Sum>e = 1..<2 ^ n. wup (Suc n) e) = Wsum n + Dsum n"
    by (simp add: wup_shift sum.distrib Wsum_def Dsum_def)
  also have "(\<Sum>e = 2 ^ n..<2 ^ Suc n. wup (Suc n) e) = (\<Sum>e = (2::nat) ^ n..<2 ^ Suc n. (1::int))"
    by (rule sum.cong) (simp_all add: wup_top)
  also have "\<dots> = 2 ^ n" by simp
  finally show ?thesis .
qed

lemma Csum_Suc: "Csum (Suc n) = 2 ^ n"
  using evn_count_pow [where a = "2 ^ Suc n" and n = n and c = "Suc (Suc n)"] by (simp add: Csum_def)

lemma Csum_Dsum: "Csum n = Dsum n + evn n 0"
proof (cases n)
  case 0
  then show ?thesis by (simp add: Csum_def Dsum_def evn_def numeral_2_eq_2)
next
  case (Suc j)
  have "Dsum n + evn n 0 = (\<Sum>e = 0..<2 ^ n. evn n e)"
    unfolding Dsum_def by (simp add: sum.atLeast_Suc_lessThan)
  also have "\<dots> = 2 ^ j" using evn_count_pow [where a = 0 and n = j and c = n] Suc by simp
  finally show ?thesis using Csum_Suc [of j] Suc by simp
qed

lemma Wsum_Csum: "Wsum n + Csum n + int (Suc n div 2) + 1 = 2 ^ Suc n"
proof (induction n)
  case 0
  then show ?case by (simp add: Wsum_def Csum_def evn_def numeral_2_eq_2)
next
  case (Suc n)
  have "int (Suc (Suc n) div 2) = int (Suc n div 2) + evn n 0"
    unfolding evn_def by (cases "even n") (auto elim!: evenE oddE)
  then show ?case using Suc Wsum_step [of n] Csum_Suc [of n] Csum_Dsum [of n] by simp
qed

lemma Tsum_step: "Tsum (Suc (Suc n)) = Tsum (Suc n) + (int (Suc n div 2) + 1) + Wsum n + Csum n"
proof -
  let ?f = "\<lambda>r. tS (Suc (Suc n)) (int r)"
  have "Tsum (Suc (Suc n)) = sum ?f {1..<2 ^ Suc n} + sum ?f {2 ^ Suc n..<2 ^ Suc (Suc n)}"
    unfolding Tsum_def by (rule sum.atLeastLessThan_concat [symmetric]) simp_all
  also have "sum ?f {1..<2 ^ Suc n} = 0"
    by (rule sum.neutral) (simp add: tS_low)
  also have "sum ?f {2 ^ Suc n..<2 ^ Suc (Suc n)} = ?f (2 ^ Suc n) + sum ?f {Suc (2 ^ Suc n)..<2 ^ Suc (Suc n)}"
    by (rule sum.atLeast_Suc_lessThan) simp
  also have "?f (2 ^ Suc n) = int (Suc n div 2) + 1" by (rule tS_top)
  also have "sum ?f {Suc (2 ^ Suc n)..<2 ^ Suc (Suc n)} = sum ?f {1 + 2 ^ Suc n..<2 ^ Suc n + 2 ^ Suc n}"
    by simp
  also have "\<dots> = (\<Sum>e = 1..<2 ^ Suc n. ?f (e + 2 ^ Suc n))"
    by (rule sum.shift_bounds_nat_ivl)
  also have "\<dots> = (\<Sum>e = 1..<2 ^ n. ?f (e + 2 ^ Suc n)) + (\<Sum>e = 2 ^ n..<2 ^ Suc n. ?f (e + 2 ^ Suc n))"
    by (rule sum.atLeastLessThan_concat [symmetric]) simp_all
  also have "(\<Sum>e = 1..<2 ^ n. ?f (e + 2 ^ Suc n)) = Wsum n"
  proof -
    have "?f (e + 2 ^ Suc n) = wup n e" if "e \<in> {1..<2 ^ n}" for e
      using that tS_upper_half [of e n] by (simp only: wup_def add.commute [of e]) simp
    then show ?thesis unfolding Wsum_def by (intro sum.cong refl)
  qed
  also have "(\<Sum>e = 2 ^ n..<2 ^ Suc n. ?f (e + 2 ^ Suc n))
      = (\<Sum>e = 2 ^ n..<2 ^ Suc n. tS (Suc n) (int e) + evn (Suc n) e)"
  proof -
    have "?f (e + 2 ^ Suc n) = tS (Suc n) (int e) + evn (Suc n) e" if "e \<in> {2 ^ n..<2 ^ Suc n}" for e
      using that tS_shift [of n e] by (simp only: evn_def add.commute [of e]) simp
    then show ?thesis by (intro sum.cong refl)
  qed
  also have "\<dots> = (\<Sum>e = 2 ^ n..<2 ^ Suc n. tS (Suc n) (int e)) + Csum n"
    by (simp add: sum.distrib Csum_def)
  also have "(\<Sum>e = 2 ^ n..<2 ^ Suc n. tS (Suc n) (int e)) = Tsum (Suc n)"
  proof -
    have "Tsum (Suc n) = (\<Sum>e = 1..<2 ^ n. tS (Suc n) (int e)) + (\<Sum>e = 2 ^ n..<2 ^ Suc n. tS (Suc n) (int e))"
      unfolding Tsum_def by (rule sum.atLeastLessThan_concat [symmetric]) simp_all
    also have "(\<Sum>e = 1..<2 ^ n. tS (Suc n) (int e)) = 0"
      by (rule sum.neutral) (simp add: tS_low)
    finally show ?thesis by simp
  qed
  finally show ?thesis by simp
qed

lemma Tsum_eq: "Tsum n = 2 ^ n - 1"
proof (induction n rule: induct_nat_012)
  case 0
  then show ?case by (simp add: Tsum_def)
next
  case 1
  have "tS (Suc 0) (int (2 ^ 0)) = 1" by (subst tS_top) simp
  then show ?case by (simp add: Tsum_def numeral_2_eq_2)
next
  case (ge2 n)
  then show ?case using Tsum_step [of n] Wsum_Csum [of n] by simp
qed

lemma tS_range_nat:
  assumes "1 \<le> r" "r < 2 ^ k"
  shows "0 \<le> tS k (int r) \<and> tS k (int r) \<le> int (k div 2) + 1"
proof (cases k)
  case 0
  with assms show ?thesis by simp
next
  case (Suc n)
  show ?thesis
  proof (cases "r < 2 ^ n")
    case True
    then show ?thesis by (simp add: Suc tS_low)
  next
    case False
    define L where "L = bit_length_nat (2 ^ Suc n - r)"
    define B where "B = bit_length_nat ((2 * r) mod 2 ^ L)"
    define p where "p = (int (Suc n) + int r) mod 2"
    from False assms Suc have r: "2 ^ n \<le> r" "r \<le> 2 ^ Suc n" by simp_all
    have "2 ^ Suc n - r < 2 ^ Suc n" using assms by simp
    then have "L \<le> Suc n" unfolding L_def by (rule bl_le)
    moreover have "B \<le> L" unfolding B_def by (rule bl_le) simp
    ultimately have B: "int B \<le> int n + 1" by simp
    have p: "0 \<le> p" "p \<le> 1" unfolding p_def by simp_all
    have "tS k (int r) = (p + int (Suc n) + 1 - int B) div 2"
      unfolding Suc tS_high [OF r] p_def B_def L_def ..
    moreover have "int (k div 2) + 1 = (int n + 3) div 2"
      unfolding Suc by (simp add: zdiv_int)
    moreover have "0 \<le> (p + int (Suc n) + 1 - int B) div 2"
      using p B by simp
    moreover have "(p + int (Suc n) + 1 - int B) div 2 \<le> (int n + 3) div 2"
      using p B by (intro zdiv_mono1) simp_all
    ultimately show ?thesis by simp
  qed
qed

lemma int_ivl_image: "{1..(2::int) ^ k - 1} = int ` {1..<2 ^ k}"
proof -
  have "{1..(2::int) ^ k - 1} = {int 1..<int (2 ^ k)}" by auto
  also have "\<dots> = int ` {1..<2 ^ k}" by (rule image_int_atLeastLessThan [symmetric])
  finally show ?thesis .
qed

lemma tS_sum_int: "(\<Sum>r = 1..2 ^ k - 1. tS k r) = 2 ^ k - 1"
proof -
  have "(\<Sum>r = 1..2 ^ k - 1. tS k r) = (\<Sum>r = 1..<2 ^ k. tS k (int r))"
    unfolding int_ivl_image by (simp add: sum.reindex)
  then show ?thesis using Tsum_eq [of k] by (simp add: Tsum_def)
qed

subsection \<open>Range and sum of the schedule\<close>

text \<open>
  C2, as stated, bounds \<open>tS k r\<close> by \<open>ceil (k / 2)\<close> on the build rounds. The bound
  fails: for order \<open>2\<close> the last build round \<open>r = 3\<close> has \<open>tS 2 3 = 2\<close>, above
  \<open>ceil (2 / 2) = 1\<close>.
\<close>

theorem tS_bound_counterexample:
  "(1::int) \<le> 3 \<and> (3::int) \<le> 2 ^ 2 - 1 \<and> \<not> tS 2 3 \<le> int ((2 + 1) div 2)"
  by (simp add: tS_def bit_length_def bit_length_nat.simps)

text \<open>
  C2, amended: for every order \<open>k\<close> and every round \<open>r\<close> with \<open>1 \<le> r \<le> 2 ^ k - 1\<close>,
  \<open>tS k r\<close> lies between \<open>0\<close> and \<open>floor (k / 2) + 1\<close>, and the sum of \<open>tS k r\<close> over
  these rounds is exactly \<open>2 ^ k - 1\<close>.
\<close>

theorem tS_range_and_sum:
  "(\<forall>r. 1 \<le> r \<and> r \<le> 2 ^ k - 1 \<longrightarrow> 0 \<le> tS k r \<and> tS k r \<le> int (k div 2) + 1)
   \<and> (\<Sum>r = 1..2 ^ k - 1. tS k r) = 2 ^ k - 1"
proof (intro conjI allI impI)
  fix r :: int
  assume a: "1 \<le> r \<and> r \<le> 2 ^ k - 1"
  then have "1 \<le> nat r" "nat r < 2 ^ k" by (simp_all add: nat_less_iff nat_le_iff le_nat_iff)
  from tS_range_nat [OF this] a
  show "0 \<le> tS k r" "tS k r \<le> int (k div 2) + 1" by simp_all
next
  show "(\<Sum>r = 1..2 ^ k - 1. tS k r) = 2 ^ k - 1" by (rule tS_sum_int)
qed

text \<open>The amended C2 at order \<open>2\<close>, round \<open>3\<close>, where the bound is attained.\<close>

theorem tS_range_and_sum_witness:
  "(1::int) \<le> 3 \<and> (3::int) \<le> 2 ^ 2 - 1 \<and> 0 \<le> tS 2 3 \<and> tS 2 3 \<le> int (2 div 2) + 1
    \<and> (\<Sum>r = 1..2 ^ 2 - 1. tS 2 r) = 2 ^ 2 - 1"
  using tS_range_and_sum [of 2] by simp

section \<open>The run of the pebbler\<close>

subsection \<open>The invariant of the build loop\<close>

lemma getitem_nat: "j < length ys \<Longrightarrow> getitem ys (int j) = Inr (ys ! j)"
  by (simp add: getitem_def)

lemma setitem_nat: "j < length ys \<Longrightarrow> setitem ys (int j) v = Inr (ys[j := v])"
  by (simp add: setitem_def)

lemma length_slots [simp]: "j \<le> k \<Longrightarrow> length (slots f k x j m) = Suc k"
  by (simp add: slots_def)

lemma slots_nth_cursor: "slots f k x j m ! j = Some ((f ^^ m) x)"
  by (simp add: slots_def nth_append)

lemma slots_update_same: "(slots f k x j m)[j := Some v] = replicate j None @ Some v # map (\<lambda>l. Some ((f ^^ (2 ^ k - 2 ^ l)) x)) [Suc j..<Suc k]"
  by (simp add: slots_def list_update_append)

lemma slots_stay: "(slots f k x j m)[j := Some (f ((f ^^ m) x))] = slots f k x j (Suc m)"
  by (simp add: slots_update_same) (simp add: slots_def)

lemma slots_down:
  assumes "j \<le> k" "m = 2 ^ k - 2 ^ Suc j'" "j = Suc j'"
  shows "(slots f k x j m)[j' := Some (f ((f ^^ m) x))] = slots f k x j' (Suc m)"
proof -
  let ?tl = "map (\<lambda>l. Some ((f ^^ (2 ^ k - 2 ^ l)) x)) [Suc j..<Suc k]"
  have u: "[Suc j'..<Suc k] = j # [Suc j..<Suc k]"
    using assms by (simp add: upt_conv_Cons)
  have "slots f k x j m = replicate j' None @ None # (Some ((f ^^ m) x) # ?tl)"
    unfolding slots_def assms(3) by (simp add: replicate_append_same)
  then have "(slots f k x j m)[j' := Some (f ((f ^^ m) x))]
      = replicate j' None @ Some (f ((f ^^ m) x)) # (Some ((f ^^ m) x) # ?tl)"
    by (simp add: list_update_append)
  also have "\<dots> = slots f k x j' (Suc m)"
    unfolding slots_def u using assms by simp
  finally show ?thesis .
qed

lemma advance_building:
  assumes "building f k x m s" "Suc m < 2 ^ k"
  shows "\<exists>s'. advance f s = Inr s' \<and> building f k x (Suc m) s'"
proof -
  from assms(1) obtain j where j: "j \<le> k"
    and s: "s = (slots f k x j m, int j, of_nat (2 ^ k - 2 ^ j - m))"
    and le: "m + 2 ^ j \<le> 2 ^ k" and gt: "j < k \<longrightarrow> 2 ^ k < m + 2 * 2 ^ j"
    unfolding building_def by blast
  have get: "getitem (slots f k x j m) (int j) = Inr (Some ((f ^^ m) x))"
    using j by (simp add: getitem_nat slots_nth_cursor)
  show ?thesis
  proof (cases "2 ^ k - 2 ^ j - m = 0")
    case True
    with le have m: "m = 2 ^ k - 2 ^ j" by simp
    have "j \<noteq> 0"
    proof
      assume "j = 0"
      with m assms(2) show False by simp
    qed
    then obtain j' where j': "j = Suc j'" by (cases j) auto
    have i': "int j - 1 = int j'" using j' by simp
    have set: "setitem (slots f k x j m) (int j') (Some (f ((f ^^ m) x))) = Inr (slots f k x j' (Suc m))"
      using j j' m by (simp add: setitem_nat slots_down)
    have pw: "(2::nat) ^ j = 2 * 2 ^ j'" using j' by simp
    have g': "(2::rat) ^ j' - 1 = of_nat (2 ^ k - 2 ^ j' - Suc m)"
    proof -
      have e: "2 ^ k - 2 ^ j' - Suc m = 2 ^ j' - 1" using m le pw by simp
      show ?thesis unfolding e by (simp add: of_nat_diff)
    qed
    have "advance f s = Inr (slots f k x j' (Suc m), int j', of_nat (2 ^ k - 2 ^ j' - Suc m))"
      unfolding s using True by (simp add: get set i' g')
    moreover have "building f k x (Suc m) (slots f k x j' (Suc m), int j', of_nat (2 ^ k - 2 ^ j' - Suc m))"
    proof -
      have p1: "(1::nat) \<le> 2 ^ j'" by simp
      have a1: "Suc m + 2 ^ j' \<le> 2 ^ k" using m le pw p1 by linarith
      have a2: "2 ^ k < Suc m + 2 * 2 ^ j'" using m le pw by linarith
      show ?thesis
        unfolding building_def using j j' a1 a2 by (intro exI [of _ j']) simp
    qed
    ultimately show ?thesis by blast
  next
    case False
    then have lt: "Suc m + 2 ^ j \<le> 2 ^ k" by simp
    have jk: "j < k"
    proof (rule ccontr)
      assume "\<not> j < k"
      with j have "j = k" by simp
      with False show False by simp
    qed
    have set: "setitem (slots f k x j m) (int j) (Some (f ((f ^^ m) x))) = Inr (slots f k x j (Suc m))"
      using j by (simp add: setitem_nat slots_stay)
    define G :: rat where "G = of_nat (2 ^ k - 2 ^ j - m)"
    define G' :: rat where "G' = of_nat (2 ^ k - 2 ^ j - Suc m)"
    have g0: "G \<noteq> 0" unfolding G_def using False by (simp only: of_nat_eq_0_iff not_False_eq_True)
    have "2 ^ k - 2 ^ j - m = Suc (2 ^ k - 2 ^ j - Suc m)" using False by simp
    then have g': "G - 1 = G'"
      unfolding G_def G'_def by (simp only: of_nat_Suc)
    have "advance f s = Inr (slots f k x j (Suc m), int j, G')"
      unfolding s G_def [symmetric] using g0 by (simp add: get set g')
    then have "advance f s = Inr (slots f k x j (Suc m), int j, of_nat (2 ^ k - 2 ^ j - Suc m))"
      unfolding G'_def .
    moreover have "building f k x (Suc m) (slots f k x j (Suc m), int j, of_nat (2 ^ k - 2 ^ j - Suc m))"
      unfolding building_def using j jk lt gt by (intro exI [of _ j]) auto
    ultimately show ?thesis by blast
  qed
qed

subsection \<open>The build loop, round by round\<close>

lemma done_before_1 [simp]: "done_before k (Suc 0) = 0"
  by (simp add: done_before_def)

lemma done_before_Suc: "1 \<le> r \<Longrightarrow> done_before k (Suc r) = done_before k r + nat (tS k (int r))"
  by (simp add: done_before_def)

lemma done_before_total: "done_before k (2 ^ k) = 2 ^ k - 1"
proof -
  have "int (done_before k (2 ^ k)) = (\<Sum>q = 1..<2 ^ k. int (nat (tS k (int q))))"
    by (simp add: done_before_def)
  also have "\<dots> = (\<Sum>q = 1..<2 ^ k. tS k (int q))"
    by (rule sum.cong) (simp_all add: tS_range_nat)
  also have "\<dots> = 2 ^ k - 1" using Tsum_eq [of k] by (simp add: Tsum_def)
  also have "\<dots> = int (2 ^ k - 1)" by (simp add: of_nat_diff)
  finally show ?thesis by (simp only: of_nat_eq_iff)
qed

lemma done_before_le:
  assumes "1 \<le> r" "r \<le> 2 ^ k"
  shows "done_before k r \<le> 2 ^ k - 1"
proof -
  have "done_before k (2 ^ k) = done_before k r + (\<Sum>q = r..<2 ^ k. nat (tS k (int q)))"
    unfolding done_before_def using assms by (intro sum.atLeastLessThan_concat [symmetric]) simp_all
  then show ?thesis using done_before_total [of k] by simp
qed

lemma advances_building:
  "building f k x m s \<Longrightarrow> m + n < 2 ^ k \<Longrightarrow>
     \<exists>s'. advances f n s = Inr s' \<and> building f k x (m + n) s'"
proof (induction n arbitrary: m s)
  case 0
  then show ?case by simp
next
  case (Suc n)
  from Suc.prems have "Suc m < 2 ^ k" by simp
  from advance_building [OF Suc.prems(1) this]
  obtain s1 where s1: "advance f s = Inr s1" "building f k x (Suc m) s1" by blast
  from Suc.prems have "Suc m + n < 2 ^ k" by simp
  from Suc.IH [OF s1(2) this]
  obtain s' where "advances f n s1 = Inr s'" "building f k x (Suc m + n) s'" by blast
  with s1 show ?case by simp
qed

lemma build_building:
  "building f k x (done_before k r) s \<Longrightarrow> 1 \<le> r \<Longrightarrow> r \<le> 2 ^ k \<Longrightarrow> d = 2 ^ k - r \<Longrightarrow>
     \<exists>B s'. build f k (map int [r..<2 ^ k]) s = (B, Inr s') \<and> building f k x (2 ^ k - 1) s'
        \<and> length B = d
        \<and> (\<forall>t<d. out (B ! t) = None \<and> evals (B ! t) = nat (tS k (int (r + t))))"
proof (induction d arbitrary: r s)
  case 0
  then have "r = 2 ^ k" by simp
  with 0 show ?case by (simp add: done_before_total)
next
  case (Suc d)
  then have r: "r < 2 ^ k" by simp
  then have upt: "[r..<2 ^ k] = r # [Suc r..<2 ^ k]" by (simp add: upt_conv_Cons)
  have le: "done_before k (Suc r) \<le> 2 ^ k - 1"
    using Suc.prems r by (intro done_before_le) simp_all
  then have "done_before k r + nat (tS k (int r)) < 2 ^ k"
    using Suc.prems by (simp add: done_before_Suc)
  from advances_building [OF Suc.prems(1) this]
  obtain s1 where s1: "advances f (nat (tS k (int r))) s = Inr s1"
    "building f k x (done_before k (Suc r)) s1"
    using Suc.prems by (auto simp: done_before_Suc)
  have "\<exists>B s'. build f k (map int [Suc r..<2 ^ k]) s1 = (B, Inr s') \<and> building f k x (2 ^ k - 1) s'
        \<and> length B = d
        \<and> (\<forall>t<d. out (B ! t) = None \<and> evals (B ! t) = nat (tS k (int (Suc r + t))))"
    using Suc.prems r by (intro Suc.IH [OF s1(2)]) simp_all
  then obtain B s' where B: "build f k (map int [Suc r..<2 ^ k]) s1 = (B, Inr s')"
    "building f k x (2 ^ k - 1) s'" "length B = d"
    "\<forall>t<d. out (B ! t) = None \<and> evals (B ! t) = nat (tS k (int (Suc r + t)))" by blast
  let ?R = "\<lparr>out = None, evals = nat (tS k (int r)), held = [fst s1]\<rparr>"
  have "build f k (map int [r..<2 ^ k]) s = (?R # B, Inr s')"
    unfolding upt using s1(1) B(1) by simp
  moreover have "\<forall>t<Suc d. out ((?R # B) ! t) = None \<and> evals ((?R # B) ! t) = nat (tS k (int (r + t)))"
  proof (intro allI impI)
    fix t assume "t < Suc d"
    then show "out ((?R # B) ! t) = None \<and> evals ((?R # B) ! t) = nat (tS k (int (r + t)))"
      using B(4) by (cases t) simp_all
  qed
  ultimately show ?case using B(2,3) by auto
qed

lemma building_init: "building f k x 0 (replicate k None @ [Some x], int k, 0)"
  unfolding building_def by (intro exI [of _ k]) (simp add: slots_def)

lemma building_final:
  assumes "building f k x m s" "m = 2 ^ k - 1"
  shows "s = (final_slots f k x, 0, 0)"
proof -
  from assms(1) obtain j where j: "j \<le> k"
    and s: "s = (slots f k x j m, int j, of_nat (2 ^ k - 2 ^ j - m))"
    and le: "m + 2 ^ j \<le> 2 ^ k" and gt: "j < k \<longrightarrow> 2 ^ k < m + 2 * 2 ^ j"
    unfolding building_def by blast
  have "(2::nat) ^ j \<le> 1" using le assms(2) by simp
  then have j0: "j = 0"
  proof (cases j)
    case (Suc j')
    have "(1::nat) \<le> 2 ^ j'" by simp
    with \<open>2 ^ j \<le> 1\<close> Suc show ?thesis by simp
  qed simp
  have "[0..<Suc k] = 0 # [Suc 0..<Suc k]" by (simp add: upt_conv_Cons)
  then have "final_slots f k x = slots f k x 0 (2 ^ k - 1)"
    unfolding final_slots_def slots_def by simp
  then show ?thesis unfolding s j0 assms(2) by simp
qed

lemma build_run:
  "\<exists>B. build f k (map int [1..<2 ^ k]) (replicate k None @ [Some x], int k, 0)
          = (B, Inr (final_slots f k x, 0, 0))
       \<and> length B = 2 ^ k - 1
       \<and> (\<forall>t<2 ^ k - 1. out (B ! t) = None \<and> evals (B ! t) = nat (tS k (int (Suc t))))"
proof -
  have "building f k x (done_before k 1) (replicate k None @ [Some x], int k, 0)"
    using building_init [of f k x] by simp
  from build_building [OF this, of "2 ^ k - 1"]
  obtain B s' where B: "build f k (map int [1..<2 ^ k]) (replicate k None @ [Some x], int k, 0) = (B, Inr s')"
    "building f k x (2 ^ k - 1) s'" "length B = 2 ^ k - 1"
    "\<forall>t<2 ^ k - 1. out (B ! t) = None \<and> evals (B ! t) = nat (tS k (int (1 + t)))"
    by auto
  from building_final [OF B(2) refl] B show ?thesis by auto
qed

lemma build_rounds_props:
  "build f k (map int [1..<2 ^ k]) (replicate k None @ [Some x], int k, 0)
          = (build_rounds f k x, Inr (final_slots f k x, 0, 0))"
  "length (build_rounds f k x) = 2 ^ k - 1"
  "t < 2 ^ k - 1 \<Longrightarrow> out (build_rounds f k x ! t) = None"
  "t < 2 ^ k - 1 \<Longrightarrow> evals (build_rounds f k x ! t) = nat (tS k (int (Suc t)))"
  using build_run [of f k x] by (auto simp: build_rounds_def)

subsection \<open>The step from the build phase to the final loop\<close>

lemma getitem_final: "getitem (final_slots f k x) 0 = Inr (Some ((f ^^ (2 ^ k - 1)) x))"
proof -
  have "[0..<Suc k] = 0 # [Suc 0..<Suc k]" by (simp add: upt_conv_Cons)
  then show ?thesis by (simp add: getitem_def final_slots_def)
qed

lemma seeds_nth: "\<forall>i\<in>set js. i < length y \<Longrightarrow> seeds y js = Inr (map (\<lambda>i. y ! i) js)"
  by (induction js) (simp_all add: getitem_nat)

lemma final_slots_nth: "i \<le> k \<Longrightarrow> final_slots f k x ! i = Some ((f ^^ (2 ^ k - 2 ^ i)) x)"
  by (simp add: final_slots_def del: upt_Suc)

lemma seeds_final:
  "seeds (final_slots f k x) [1..<k + 1] = Inr (map (\<lambda>i. Some ((f ^^ (2 ^ k - 2 ^ i)) x)) [1..<k + 1])"
proof -
  have "seeds (final_slots f k x) [1..<k + 1] = Inr (map (\<lambda>i. final_slots f k x ! i) [1..<k + 1])"
    by (rule seeds_nth) (simp add: final_slots_def del: upt_Suc)
  also have "map (\<lambda>i. final_slots f k x ! i) [1..<k + 1] = map (\<lambda>i. Some ((f ^^ (2 ^ k - 2 ^ i)) x)) [1..<k + 1]"
    by (rule map_cong) (simp_all add: final_slots_nth del: upt_Suc)
  finally show ?thesis .
qed

lemma zip_map_self: "zip js (map h js) = map (\<lambda>i. (i, h i)) js"
  by (induction js) simp_all

lemma P_unfold:
  "P f k (Some x) =
     (case emit (final_slots f k x) (zip_longest (sub_generators f k x)) of
        (rounds', e) \<Rightarrow> (build_rounds f k x @ first_round f k x # rounds', e))"
proof -
  have "map (\<lambda>(i, x'). P f (i - 1) x')
          (zip [1..<k + 1] (map (\<lambda>i. Some ((f ^^ (2 ^ k - 2 ^ i)) x)) [1..<k + 1]))
        = sub_generators f k x"
    unfolding sub_generators_def zip_map_self by (simp only: map_map comp_def prod.case)
  then show ?thesis
    by (subst P.simps)
       (simp only: build_rounds_props(1) prod.case sum.case getitem_final seeds_final
          first_round_def)
qed

subsection \<open>Interleaving generators that do not raise\<close>

lemma poll_ok:
  "\<forall>s\<in>set ss. snd s = None \<Longrightarrow> poll ss = Inr (map (\<lambda>s. step_of s 0) ss)"
proof (induction ss rule: poll.induct)
  case 1
  then show ?case by simp
next
  case (2 r rs e ss)
  then show ?case by (simp add: step_of_def)
next
  case (3 e ss)
  then show ?case by simp
next
  case (4 ss)
  then show ?case by (simp add: step_of_def)
qed

lemma longest_Nil [simp]: "longest [] = 0"
  by (simp add: longest_def)

lemma longest_Cons [simp]: "longest (s # ss) = max (length (fst s)) (longest ss)"
  by (simp add: longest_def)

lemma longest_advance_all: "longest (advance_all ss) = longest ss - 1"
  by (induction ss) (auto simp: advance_all_def)

lemma all_None_iff: "list_all (\<lambda>c. c = None) (map (\<lambda>s. step_of s 0) ss) \<longleftrightarrow> longest ss = 0"
  by (induction ss) (auto simp: step_of_def)

lemma step_of_advance_all:
  "map (\<lambda>s. step_of s t) (advance_all ss) = map (\<lambda>s. step_of s (Suc t)) ss"
  by (induction ss) (auto simp: advance_all_def step_of_def nth_tl)

lemma rows_of_Suc: "rows_of ss (Suc n) = map (\<lambda>s. step_of s 0) ss # rows_of (advance_all ss) n"
proof -
  have "[0..<Suc n] = 0 # map Suc [0..<n]"
    by (simp add: upt_conv_Cons map_Suc_upt del: upt_Suc)
  then show ?thesis
    unfolding rows_of_def by (simp add: step_of_advance_all comp_def del: upt_Suc)
qed

lemma zip_longest_ok:
  "\<forall>s\<in>set ss. snd s = None \<Longrightarrow> longest ss = n \<Longrightarrow> zip_longest ss = (rows_of ss n, None)"
proof (induction n arbitrary: ss)
  case 0
  then show ?case
    by (subst zip_longest.simps) (simp add: poll_ok all_None_iff rows_of_def)
next
  case (Suc n)
  have "\<forall>s\<in>set (advance_all ss). snd s = None"
    using Suc.prems(1) by (auto simp: advance_all_def)
  moreover have "longest (advance_all ss) = n"
    using Suc.prems(2) by (simp add: longest_advance_all)
  ultimately have "zip_longest (advance_all ss) = (rows_of (advance_all ss) n, None)"
    by (rule Suc.IH)
  then show ?case
    using Suc.prems
    by (subst zip_longest.simps) (simp add: poll_ok all_None_iff rows_of_Suc)
qed

lemma pick_first_value:
  "filter (\<lambda>c. c \<noteq> None) v \<noteq> [] \<Longrightarrow> pick v = Inr (first_value v)"
  by (simp add: pick_def first_value_def split: list.splits)

lemma emit_ok:
  "\<forall>v\<in>set rows. filter (\<lambda>c. c \<noteq> None) (tuple_of v) \<noteq> [] \<Longrightarrow>
     emit y (rows, None) = (map (round_of y) rows, None)"
  by (induction rows) (simp_all add: pick_first_value round_of_def)

lemma first_value_const:
  "\<forall>c\<in>set v. c = None \<or> c = Some b \<Longrightarrow> Some b \<in> set v \<Longrightarrow>
     filter (\<lambda>c. c \<noteq> None) v \<noteq> [] \<and> first_value v = Some b"
  by (induction v) (auto simp: first_value_def split: list.splits)

subsection \<open>The tuples of the sub-generators\<close>

lemma longest_append: "longest (ss @ [s]) = max (longest ss) (length (fst s))"
  by (induction ss) auto

lemma longest_pow:
  "\<forall>i. 1 \<le> i \<and> i \<le> k \<longrightarrow> length (fst (h i)) = 2 ^ i - 1 \<Longrightarrow>
     longest (map h [1..<k + 1]) = 2 ^ k - 1"
proof (induction k)
  case 0
  then show ?case by simp
next
  case (Suc k)
  then have "longest (map h [1..<k + 1]) = 2 ^ k - 1" by simp
  moreover have "length (fst (h (Suc k))) = 2 ^ Suc k - 1" using Suc.prems by simp
  moreover have "[1..<Suc k + 1] = [1..<k + 1] @ [Suc k]" by simp
  ultimately show ?case by (simp only: map_append longest_append list.map) simp
qed

lemma chain_out_sub:
  assumes "1 \<le> i" "i \<le> k"
  shows "(if t < 2 ^ i - 1 then chain_out f (i - 1) ((f ^^ (2 ^ k - 2 ^ i)) x) t else None)
           = sub_out f k x t i"
proof -
  obtain j where j: "i = Suc j" using assms(1) by (cases i) auto
  have pw: "(2::nat) ^ i \<le> 2 ^ k" using assms(2) by (intro power_increasing) simp_all
  show ?thesis
  proof (cases "2 ^ j \<le> Suc t \<and> Suc t < 2 ^ i")
    case True
    then have "(2 ^ i - 2 - t) + (2 ^ k - 2 ^ i) = 2 ^ k - 2 - t" using pw by simp
    then have "(f ^^ (2 ^ i - 2 - t)) ((f ^^ (2 ^ k - 2 ^ i)) x) = (f ^^ (2 ^ k - 2 - t)) x"
      by (metis funpow_add comp_apply)
    moreover from True have "2 ^ j \<le> Suc t" "Suc t < 2 ^ i" by blast+
    then have "t < 2 ^ i - 1" "\<not> t < 2 ^ j - 1" by linarith+
    ultimately show ?thesis using True by (simp add: chain_out_def sub_out_def j)
  next
    case False
    then have "\<not> t < 2 ^ i - 1 \<or> t < 2 ^ j - 1" by auto
    then show ?thesis using False by (auto simp: chain_out_def sub_out_def j)
  qed
qed

lemma sub_out_exists:
  assumes "t < 2 ^ k - 1"
  shows "Some ((f ^^ (2 ^ k - 2 - t)) x) \<in> set (map (sub_out f k x t) [1..<k + 1])"
proof -
  define i where "i = bit_length_nat (Suc t)"
  have up: "Suc t < 2 ^ i" unfolding i_def by (rule bl_upper)
  have lo: "2 ^ (i - 1) \<le> Suc t" unfolding i_def by (rule bl_lower) simp
  have "Suc t < 2 ^ k" using assms by simp
  then have ik: "i \<le> k" unfolding i_def by (rule bl_le)
  have i1: "1 \<le> i" using up by (cases i) simp_all
  have "sub_out f k x t i = Some ((f ^^ (2 ^ k - 2 - t)) x)"
    using up lo by (simp add: sub_out_def)
  moreover have "i \<in> set [1..<k + 1]" using ik i1 by (simp del: upt_Suc)
  ultimately show ?thesis by (metis imageI set_map)
qed

lemma sub_out_cases: "\<forall>c\<in>set (map (sub_out f k x t) [1..<k + 1]). c = None \<or> c = Some ((f ^^ (2 ^ k - 2 - t)) x)"
  by (auto simp: sub_out_def)

lemma tuple_of_steps:
  "tuple_of (map (\<lambda>s. step_of s t) (map h js))
     = map (\<lambda>i. if t < length (fst (h i)) then out (fst (h i) ! t) else None) js"
  by (simp add: tuple_of_def step_of_def comp_def)

lemma sub_generators_props:
  assumes IH: "\<And>j z. j < k \<Longrightarrow> traversal_ok f j z"
  shows "\<forall>s\<in>set (sub_generators f k x). snd s = None"
    and "longest (sub_generators f k x) = 2 ^ k - 1"
    and "\<And>t. tuple_of (map (\<lambda>s. step_of s t) (sub_generators f k x)) = map (sub_out f k x t) [1..<k + 1]"
proof -
  let ?h = "\<lambda>i. P f (i - 1) (Some ((f ^^ (2 ^ k - 2 ^ i)) x))"
  have ok: "traversal_ok f (i - 1) ((f ^^ (2 ^ k - 2 ^ i)) x)" if "1 \<le> i" "i \<le> k" for i
    using that by (intro IH) simp
  have len: "length (fst (?h i)) = 2 ^ i - 1" if "1 \<le> i" "i \<le> k" for i
    using ok [OF that] that by (cases i) (simp_all add: traversal_ok_def)
  show "\<forall>s\<in>set (sub_generators f k x). snd s = None"
    using ok by (auto simp: sub_generators_def traversal_ok_def)
  show "longest (sub_generators f k x) = 2 ^ k - 1"
    unfolding sub_generators_def using len by (intro longest_pow) simp
  show "tuple_of (map (\<lambda>s. step_of s t) (sub_generators f k x)) = map (sub_out f k x t) [1..<k + 1]" for t
  proof -
    have "(if t < length (fst (?h i)) then out (fst (?h i) ! t) else None) = sub_out f k x t i"
      if "i \<in> set [1..<k + 1]" for i
    proof -
      from that have i: "1 \<le> i" "i \<le> k" by (simp_all del: upt_Suc)
      then obtain j where j: "i = Suc j" by (cases i) auto
      have "out (fst (?h i) ! t) = chain_out f (i - 1) ((f ^^ (2 ^ k - 2 ^ i)) x) t" if "t < 2 ^ i - 1"
        using ok [OF i] that by (simp add: traversal_ok_def j)
      then show ?thesis using len [OF i] chain_out_sub [OF i, of t f x]
        by (auto split: if_splits)
    qed
    then show ?thesis
      unfolding sub_generators_def tuple_of_steps by (intro map_cong refl)
  qed
qed

subsection \<open>The whole run, by induction on the order\<close>

lemma rows_of_nth: "t < n \<Longrightarrow> rows_of ss n ! t = map (\<lambda>s. step_of s t) ss"
  by (simp add: rows_of_def del: upt_Suc)

lemma length_rows_of [simp]: "length (rows_of ss n) = n"
  by (simp add: rows_of_def)

lemma row_first_value:
  assumes IH: "\<And>j z. j < k \<Longrightarrow> traversal_ok f j z" and t: "t < 2 ^ k - 1"
  shows "filter (\<lambda>c. c \<noteq> None) (tuple_of (map (\<lambda>s. step_of s t) (sub_generators f k x))) \<noteq> []
         \<and> first_value (tuple_of (map (\<lambda>s. step_of s t) (sub_generators f k x)))
             = Some ((f ^^ (2 ^ k - 2 - t)) x)"
proof -
  have eq: "tuple_of (map (\<lambda>s. step_of s t) (sub_generators f k x)) = map (sub_out f k x t) [1..<k + 1]"
    by (rule sub_generators_props(3)) (rule IH)
  show ?thesis
    unfolding eq by (rule first_value_const [OF sub_out_cases sub_out_exists [OF t]])
qed

lemma P_structure_step:
  assumes IH: "\<And>j z. j < k \<Longrightarrow> traversal_ok f j z"
  shows "P f k (Some x) = (build_rounds f k x @ first_round f k x # emission_rounds f k x, None)"
proof -
  have "\<forall>s\<in>set (sub_generators f k x). snd s = None"
    by (rule sub_generators_props(1)) (rule IH)
  moreover have "longest (sub_generators f k x) = 2 ^ k - 1"
    by (rule sub_generators_props(2)) (rule IH)
  ultimately have z: "zip_longest (sub_generators f k x) = (rows_of (sub_generators f k x) (2 ^ k - 1), None)"
    by (rule zip_longest_ok)
  have "\<forall>v\<in>set (rows_of (sub_generators f k x) (2 ^ k - 1)). filter (\<lambda>c. c \<noteq> None) (tuple_of v) \<noteq> []"
  proof
    fix v assume "v \<in> set (rows_of (sub_generators f k x) (2 ^ k - 1))"
    then obtain t where t: "t < 2 ^ k - 1" and v: "v = map (\<lambda>s. step_of s t) (sub_generators f k x)"
      unfolding rows_of_def by auto
    show "filter (\<lambda>c. c \<noteq> None) (tuple_of v) \<noteq> []"
      unfolding v using row_first_value [of k f t x] IH t by blast
  qed
  then have "emit (final_slots f k x) (rows_of (sub_generators f k x) (2 ^ k - 1), None)
      = (emission_rounds f k x, None)"
    unfolding emission_rounds_def by (rule emit_ok)
  then show ?thesis
    by (simp only: P_unfold [of f k x] z prod.case)
qed

lemma emission_rounds_out:
  assumes IH: "\<And>j z. j < k \<Longrightarrow> traversal_ok f j z" and t: "t < 2 ^ k - 1"
  shows "out (emission_rounds f k x ! t) = Some ((f ^^ (2 ^ k - 2 - t)) x)"
proof -
  have "first_value (tuple_of (map (\<lambda>s. step_of s t) (sub_generators f k x)))
             = Some ((f ^^ (2 ^ k - 2 - t)) x)"
    using row_first_value [of k f t x] IH t by blast
  then show ?thesis
    using t by (simp add: emission_rounds_def rows_of_nth round_of_def)
qed

lemma length_emission_rounds [simp]: "length (emission_rounds f k x) = 2 ^ k - 1"
  by (simp add: emission_rounds_def)

lemma traversal_ok_step:
  assumes IH: "\<And>j z. j < k \<Longrightarrow> traversal_ok f j z"
  shows "traversal_ok f k x"
proof -
  let ?B = "build_rounds f k x" and ?E = "emission_rounds f k x"
  have lB: "length ?B = 2 ^ k - 1" by (rule build_rounds_props(2))
  have p1: "(1::nat) \<le> 2 ^ k" by simp
  have len: "length (?B @ first_round f k x # ?E) = 2 ^ Suc k - 1"
    using lB p1 by simp
  have "out ((?B @ first_round f k x # ?E) ! t) = chain_out f k x t" if "t < 2 ^ Suc k - 1" for t
  proof -
    consider "t < 2 ^ k - 1" | "t = 2 ^ k - 1" | "2 ^ k \<le> t" using p1 by linarith
    then show ?thesis
    proof cases
      case 1
      then show ?thesis
        by (simp add: nth_append lB build_rounds_props(3) chain_out_def)
    next
      case 2
      then have "(?B @ first_round f k x # ?E) ! t = first_round f k x"
        using lB by (simp add: nth_append)
      moreover have "2 ^ Suc k - 2 - (2 ^ k - 1) = 2 ^ k - (1::nat)" by simp
      ultimately show ?thesis using 2 by (simp add: first_round_def chain_out_def)
    next
      case 3
      define u where "u = t - 2 ^ k"
      have t: "t = 2 ^ k + u" using 3 by (simp add: u_def)
      have u: "u < 2 ^ k - 1" using that t by simp
      have "(?B @ first_round f k x # ?E) ! t = ?E ! u"
      proof -
        have "t - length ?B = Suc u" using lB t p1 by simp
        moreover have "\<not> t < length ?B" using lB t by simp
        ultimately show ?thesis by (simp add: nth_append)
      qed
      moreover have "2 ^ Suc k - 2 - t = 2 ^ k - 2 - u" using t by simp
      moreover have "\<not> t < 2 ^ k - 1" using 3 by simp
      moreover have "out (?E ! u) = Some ((f ^^ (2 ^ k - 2 - u)) x)"
        by (rule emission_rounds_out [OF _ u]) (rule IH)
      ultimately show ?thesis by (simp add: chain_out_def)
    qed
  qed
  moreover have "P f k (Some x) = (?B @ first_round f k x # ?E, None)"
    by (rule P_structure_step) (rule IH)
  ultimately show ?thesis
    unfolding traversal_ok_def using len by simp
qed

lemma traversal_ok_all: "traversal_ok f k x"
proof (induction k arbitrary: x rule: less_induct)
  case (less k)
  show ?case by (rule traversal_ok_step) (rule less)
qed

lemma P_structure:
  "P f k (Some x) = (build_rounds f k x @ first_round f k x # emission_rounds f k x, None)"
  by (rule P_structure_step) (rule traversal_ok_all)

section \<open>The output of the pebbler\<close>

lemma P_ok: "snd (P f k (Some x)) = None"
  and P_length: "length (fst (P f k (Some x))) = 2 ^ Suc k - 1"
  and P_out: "t < 2 ^ Suc k - 1 \<Longrightarrow> out (fst (P f k (Some x)) ! t) = chain_out f k x t"
  using traversal_ok_all [of f k x] by (simp_all add: traversal_ok_def)

lemma chain_out_list:
  "map (chain_out f k x) [0..<2 ^ Suc k - 1]
     = replicate (2 ^ k - 1) None @ map (\<lambda>i. Some ((f ^^ i) x)) (rev [0..<2 ^ k])"
proof (rule nth_equalityI)
  have p1: "(1::nat) \<le> 2 ^ k" by simp
  show len: "length (map (chain_out f k x) [0..<2 ^ Suc k - 1])
    = length (replicate (2 ^ k - 1) None @ map (\<lambda>i. Some ((f ^^ i) x)) (rev [0..<2 ^ k]))"
    using p1 by simp
  fix t assume "t < length (map (chain_out f k x) [0..<2 ^ Suc k - 1])"
  then have t: "t < 2 ^ Suc k - 1" by simp
  show "map (chain_out f k x) [0..<2 ^ Suc k - 1] ! t
     = (replicate (2 ^ k - 1) None @ map (\<lambda>i. Some ((f ^^ i) x)) (rev [0..<2 ^ k])) ! t"
  proof (cases "t < 2 ^ k - 1")
    case True
    then show ?thesis using t by (simp add: nth_append chain_out_def del: upt_Suc)
  next
    case False
    define u where "u = t - (2 ^ k - 1)"
    have u: "u < 2 ^ k" using t False by (simp add: u_def)
    have "rev [0..<2 ^ k] ! u = 2 ^ k - Suc u" using u by (simp add: rev_nth)
    moreover have "2 ^ Suc k - 2 - t = 2 ^ k - Suc u" using t False by (simp add: u_def)
    moreover have "Suc t - 2 ^ k = u" using False by (simp add: u_def)
    ultimately show ?thesis
      using t False u by (simp add: nth_append chain_out_def del: upt_Suc)
  qed
qed

text \<open>
  C1: for every order \<open>k\<close> and every seed \<open>x\<close>, \<^verbatim>\<open>P(k, x)\<close> ends without an exception
  after exactly \<open>2 ^ (k + 1) - 1\<close> rounds: first \<open>2 ^ k - 1\<close> rounds that yield \<^verbatim>\<open>None\<close>,
  then the \<open>2 ^ k\<close> chain values \<open>f\<^sup>i(x)\<close> for \<open>i = 2 ^ k - 1\<close> down to \<open>0\<close>. For order
  \<open>0\<close> there is no build round and the single round yields the seed.
\<close>

theorem P_yields_chain_reversed:
  "snd (P f k (Some x)) = None
   \<and> length (fst (P f k (Some x))) = 2 ^ (k + 1) - 1
   \<and> map out (fst (P f k (Some x)))
       = replicate (2 ^ k - 1) None @ map (\<lambda>i. Some ((f ^^ i) x)) (rev [0..<2 ^ k])
   \<and> P f 0 (Some x) = ([\<lparr>out = Some x, evals = 0, held = [[Some x]]\<rparr>], None)"
proof (intro conjI)
  show "snd (P f k (Some x)) = None" by (rule P_ok)
  show "length (fst (P f k (Some x))) = 2 ^ (k + 1) - 1" by (simp add: P_length)
  have "map out (fst (P f k (Some x))) = map (chain_out f k x) [0..<2 ^ Suc k - 1]"
    by (rule nth_equalityI) (simp_all add: P_length P_out del: upt_Suc)
  then show "map out (fst (P f k (Some x)))
       = replicate (2 ^ k - 1) None @ map (\<lambda>i. Some ((f ^^ i) x)) (rev [0..<2 ^ k])"
    by (simp only: chain_out_list)
  show "P f 0 (Some x) = ([\<lparr>out = Some x, evals = 0, held = [[Some x]]\<rparr>], None)"
    by (subst P.simps) (simp add: getitem_def zip_longest.simps)
qed

section \<open>Calls of the one-way function per round\<close>

lemma P_rounds: "fst (P f k (Some x)) = build_rounds f k x @ first_round f k x # emission_rounds f k x"
  by (simp add: P_structure)

lemma P_nth_build: "t < 2 ^ k - 1 \<Longrightarrow> fst (P f k (Some x)) ! t = build_rounds f k x ! t"
  by (simp add: P_rounds nth_append build_rounds_props(2))

lemma P_nth_first: "fst (P f k (Some x)) ! (2 ^ k - 1) = first_round f k x"
  by (simp add: P_rounds nth_append build_rounds_props(2))

lemma P_nth_emission:
  assumes "t < 2 ^ k - 1"
  shows "fst (P f k (Some x)) ! (2 ^ k + t)
           = round_of (final_slots f k x) (map (\<lambda>s. step_of s t) (sub_generators f k x))"
proof -
  have "2 ^ k + t - (2 ^ k - 1) = Suc t" by simp
  then have "fst (P f k (Some x)) ! (2 ^ k + t) = emission_rounds f k x ! t"
    by (simp add: P_rounds nth_append build_rounds_props(2))
  then show ?thesis using assms by (simp add: emission_rounds_def rows_of_nth)
qed

lemma evals_steps:
  "sum_list (map evals (yielded (map (\<lambda>s. step_of s t) (map h js))))
     = (\<Sum>i\<leftarrow>js. if t < length (fst (h i)) then evals (fst (h i) ! t) else 0)"
  by (induction js) (simp_all add: step_of_def)

lemma length_sub_generator:
  "1 \<le> i \<Longrightarrow> length (fst (P f (i - 1) (Some z))) = 2 ^ i - 1"
  using P_length [of f "i - 1" z] by (cases i) simp_all

lemma evals_emission:
  assumes "t < 2 ^ k - 1"
  shows "evals (fst (P f k (Some x)) ! (2 ^ k + t))
    = (\<Sum>i = 1..k. if Suc t < 2 ^ i
                    then evals (fst (P f (i - 1) (Some ((f ^^ (2 ^ k - 2 ^ i)) x))) ! t) else 0)"
proof -
  let ?h = "\<lambda>i. P f (i - 1) (Some ((f ^^ (2 ^ k - 2 ^ i)) x))"
  have "evals (fst (P f k (Some x)) ! (2 ^ k + t))
      = (\<Sum>i\<leftarrow>[1..<k + 1]. if t < length (fst (?h i)) then evals (fst (?h i) ! t) else 0)"
    unfolding P_nth_emission [OF assms] sub_generators_def
    by (simp only: round_of_def round.simps evals_steps)
  also have "\<dots> = (\<Sum>i\<leftarrow>[1..<k + 1]. if Suc t < 2 ^ i then evals (fst (?h i) ! t) else 0)"
  proof (rule arg_cong [where f = sum_list], rule map_cong [OF refl])
    fix i assume "i \<in> set [1..<k + 1]"
    then have "1 \<le> i" by (simp del: upt_Suc)
    then have "length (fst (?h i)) = 2 ^ i - 1" by (rule length_sub_generator)
    moreover have "t < 2 ^ i - 1 \<longleftrightarrow> Suc t < 2 ^ i" by auto
    ultimately show "(if t < length (fst (?h i)) then evals (fst (?h i) ! t) else 0)
        = (if Suc t < 2 ^ i then evals (fst (?h i) ! t) else 0)" by simp
  qed
  also have "\<dots> = (\<Sum>i = 1..k. if Suc t < 2 ^ i then evals (fst (?h i) ! t) else 0)"
  proof -
    have "{1..k} = set [1..<k + 1]" by auto
    then show ?thesis by (simp only: interv_sum_list_conv_sum_set_nat)
  qed
  finally show ?thesis .
qed

lemma evals_build:
  assumes "1 \<le> r" "r < 2 ^ k"
  shows "int (evals (fst (P f k (Some x)) ! (r - 1))) = tS k (int r)"
proof -
  have t: "r - 1 < 2 ^ k - 1" using assms by simp
  have "evals (fst (P f k (Some x)) ! (r - 1)) = nat (tS k (int (Suc (r - 1))))"
    unfolding P_nth_build [OF t] by (rule build_rounds_props(4) [OF t])
  moreover have "0 \<le> tS k (int r)" using tS_range_nat [OF assms] by simp
  ultimately show ?thesis using assms by simp
qed

lemma evals_first: "evals (fst (P f k (Some x)) ! (2 ^ k - 1)) = 0"
  unfolding P_nth_first by (simp add: first_round_def)

text \<open>
  C3, as stated, equates the number of calls of \<open>f\<close> in every round \<open>r\<close> of the whole
  traversal, \<open>1 \<le> r \<le> 2 * 2 ^ k - 1\<close>, with \<open>tS k r\<close>. It fails in the emission phase:
  for order \<open>1\<close>, round \<open>2\<close> only yields \<open>y[0]\<close> and calls \<open>f\<close> not at all, but
  \<open>tS 1 2 = 1\<close>.
\<close>

theorem evals_first_round_counterexample:
  "(1::nat) \<le> 2 \<and> (2::nat) \<le> 2 * 2 ^ 1 - 1
   \<and> int (evals (fst (P Suc 1 (Some (1::nat))) ! (2 - 1))) \<noteq> tS 1 (int 2)"
proof -
  have "evals (fst (P Suc 1 (Some (1::nat))) ! (2 ^ 1 - 1)) = 0" by (rule evals_first)
  moreover have "tS 1 2 = 1" by (simp add: tS_def bit_length_def)
  ultimately show ?thesis by simp
qed

text \<open>
  C3, amended: in every build round \<open>r\<close>, \<open>1 \<le> r \<le> 2 ^ k - 1\<close>, the pebbler calls \<open>f\<close>
  exactly \<open>tS k r\<close> times; in round \<open>2 ^ k\<close> it calls \<open>f\<close> not at all; and in round
  \<open>2 ^ k + t\<close>, \<open>1 \<le> t \<le> 2 ^ k - 1\<close>, the calls are those of its sub-generators: the sum,
  over the sub-generators \<^verbatim>\<open>P(i-1, y[i])\<close> that still run (\<open>t < 2 ^ i\<close>), of the calls
  in their round \<open>t\<close>. Rounds are counted from \<open>1\<close>, list positions from \<open>0\<close>.
\<close>

theorem evals_per_round:
  "(\<forall>r::nat. 1 \<le> r \<and> r < 2 ^ k \<longrightarrow>
        int (evals (fst (P f k (Some x)) ! (r - 1))) = tS k (int r))
   \<and> evals (fst (P f k (Some x)) ! (2 ^ k - 1)) = 0
   \<and> (\<forall>t::nat. 1 \<le> t \<and> t < 2 ^ k \<longrightarrow>
        evals (fst (P f k (Some x)) ! (2 ^ k - 1 + t))
          = (\<Sum>i = 1..k. if t < 2 ^ i
                then evals (fst (P f (i - 1) (Some ((f ^^ (2 ^ k - 2 ^ i)) x))) ! (t - 1))
                else 0))"
proof (intro conjI allI impI)
  fix r :: nat assume "1 \<le> r \<and> r < 2 ^ k"
  then show "int (evals (fst (P f k (Some x)) ! (r - 1))) = tS k (int r)"
    by (intro evals_build) simp_all
next
  show "evals (fst (P f k (Some x)) ! (2 ^ k - 1)) = 0" by (rule evals_first)
next
  fix t :: nat assume t: "1 \<le> t \<and> t < 2 ^ k"
  then obtain u where u: "t = Suc u" by (cases t) auto
  have "u < 2 ^ k - 1" using t u by simp
  from evals_emission [OF this, of f x]
  show "evals (fst (P f k (Some x)) ! (2 ^ k - 1 + t))
          = (\<Sum>i = 1..k. if t < 2 ^ i
                then evals (fst (P f (i - 1) (Some ((f ^^ (2 ^ k - 2 ^ i)) x))) ! (t - 1))
                else 0)"
    unfolding u by (simp cong: if_cong)
qed

text \<open>The amended C3 at order \<open>2\<close>: build round \<open>3\<close> and emission round \<open>4 + 1\<close>.\<close>

theorem evals_per_round_witness:
  "(1::nat) \<le> 3 \<and> (3::nat) < 2 ^ 2
   \<and> int (evals (fst (P Suc 2 (Some (1::nat))) ! (3 - 1))) = tS 2 (int 3)
   \<and> (1::nat) \<le> 1 \<and> (1::nat) < 2 ^ 2
   \<and> evals (fst (P Suc 2 (Some (1::nat))) ! (2 ^ 2 - 1 + 1))
          = (\<Sum>i = 1..2. if 1 < (2::nat) ^ i
                then evals (fst (P Suc (i - 1) (Some ((Suc ^^ (2 ^ 2 - 2 ^ i)) 1))) ! (1 - 1))
                else 0)"
proof -
  have a: "(1::nat) \<le> 3 \<and> (3::nat) < 2 ^ 2" by simp
  have b: "(1::nat) \<le> 1 \<and> (1::nat) < 2 ^ 2" by simp
  from evals_per_round [of 2 Suc 1] a b show ?thesis by blast
qed

section \<open>The total number of calls of the one-way function\<close>

lemma sum_evals_build: "sum_list (map evals (build_rounds f k x)) = 2 ^ k - 1"
proof -
  have "sum_list (map evals (build_rounds f k x)) = (\<Sum>t = 0..<2 ^ k - 1. evals (build_rounds f k x ! t))"
    by (simp add: sum_list_sum_nth build_rounds_props(2))
  also have "\<dots> = (\<Sum>t = 0..<2 ^ k - 1. nat (tS k (int (Suc t))))"
    by (rule sum.cong) (simp_all add: build_rounds_props(4))
  also have "\<dots> = (\<Sum>q = Suc 0..<Suc (2 ^ k - 1). nat (tS k (int q)))"
    by (rule sum.shift_bounds_Suc_ivl [symmetric])
  also have "\<dots> = done_before k (2 ^ k)" by (simp add: done_before_def)
  finally show ?thesis by (simp add: done_before_total)
qed

lemma sum_steps_one:
  "length rs \<le> n \<Longrightarrow> (\<Sum>t = 0..<n. if t < length rs then evals (rs ! t) else 0) = sum_list (map evals rs)"
proof -
  assume le: "length rs \<le> n"
  have "(\<Sum>t = 0..<n. if t < length rs then evals (rs ! t) else 0)
      = (\<Sum>t \<in> {0..<n} \<inter> {t. t < length rs}. evals (rs ! t))"
    by (simp add: sum.inter_restrict)
  also have "{0..<n} \<inter> {t. t < length rs} = {0..<length rs}" using le by auto
  finally show ?thesis by (simp add: sum_list_sum_nth)
qed

lemma sum_steps:
  "\<forall>s\<in>set ss. length (fst s) \<le> n \<Longrightarrow>
     (\<Sum>t = 0..<n. sum_list (map evals (yielded (map (\<lambda>s. step_of s t) ss))))
       = (\<Sum>s\<leftarrow>ss. sum_list (map evals (fst s)))"
proof (induction ss)
  case Nil
  then show ?case by simp
next
  case (Cons s ss)
  have "(\<Sum>t = 0..<n. sum_list (map evals (yielded (map (\<lambda>s. step_of s t) (s # ss)))))
     = (\<Sum>t = 0..<n. (if t < length (fst s) then evals (fst s ! t) else 0)
          + sum_list (map evals (yielded (map (\<lambda>s. step_of s t) ss))))"
    by (rule sum.cong) (simp_all add: step_of_def)
  also have "\<dots> = (\<Sum>t = 0..<n. if t < length (fst s) then evals (fst s ! t) else 0)
       + (\<Sum>t = 0..<n. sum_list (map evals (yielded (map (\<lambda>s. step_of s t) ss))))"
    by (rule sum.distrib)
  also have "\<dots> = sum_list (map evals (fst s)) + (\<Sum>s\<leftarrow>ss. sum_list (map evals (fst s)))"
    using Cons by (simp add: sum_steps_one)
  finally show ?case by simp
qed

lemma sum_evals_emission:
  "sum_list (map evals (emission_rounds f k x))
     = (\<Sum>i\<leftarrow>[1..<k + 1]. sum_list (map evals (fst (P f (i - 1) (Some ((f ^^ (2 ^ k - 2 ^ i)) x))))))"
proof -
  let ?ss = "sub_generators f k x"
  have len: "\<forall>s\<in>set ?ss. length (fst s) \<le> 2 ^ k - 1"
  proof
    fix s assume "s \<in> set ?ss"
    then obtain i where i: "1 \<le> i" "i \<le> k" and s: "s = P f (i - 1) (Some ((f ^^ (2 ^ k - 2 ^ i)) x))"
      unfolding sub_generators_def by (auto simp del: upt_Suc)
    have "(2::nat) ^ i \<le> 2 ^ k" using i by (intro power_increasing) simp_all
    then show "length (fst s) \<le> 2 ^ k - 1"
      unfolding s length_sub_generator [OF i(1)] by linarith
  qed
  have "sum_list (map evals (emission_rounds f k x))
      = (\<Sum>t = 0..<2 ^ k - 1. evals (emission_rounds f k x ! t))"
    by (simp add: sum_list_sum_nth)
  also have "\<dots> = (\<Sum>t = 0..<2 ^ k - 1. sum_list (map evals (yielded (map (\<lambda>s. step_of s t) ?ss))))"
    by (rule sum.cong) (simp_all add: emission_rounds_def rows_of_nth round_of_def)
  also have "\<dots> = (\<Sum>s\<leftarrow>?ss. sum_list (map evals (fst s)))"
    by (rule sum_steps [OF len])
  finally show ?thesis by (simp add: sub_generators_def comp_def del: upt_Suc)
qed

lemma total_rec:
  "sum_list (map evals (fst (P f k (Some x))))
     = 2 ^ k - 1 + (\<Sum>i\<leftarrow>[1..<k + 1]. sum_list (map evals (fst (P f (i - 1) (Some ((f ^^ (2 ^ k - 2 ^ i)) x))))))"
proof -
  have "sum_list (map evals (fst (P f k (Some x))))
      = sum_list (map evals (build_rounds f k x)) + (evals (first_round f k x)
          + sum_list (map evals (emission_rounds f k x)))"
    unfolding P_rounds [of f k x] by simp
  also have "evals (first_round f k x) = 0" by (simp add: first_round_def)
  finally show ?thesis by (simp only: sum_evals_build sum_evals_emission add_0)
qed

lemma pow_sum: "(\<Sum>i\<leftarrow>[1..<k + 1]. (i - 1) * 2 ^ (i - 1)) + 2 * 2 ^ k = k * 2 ^ k + 2"
proof (induction k)
  case 0
  then show ?case by simp
next
  case (Suc k)
  define S where "S = (\<Sum>i\<leftarrow>[1..<k + 1]. (i - 1) * 2 ^ (i - 1))"
  define a :: nat where "a = 2 ^ k"
  define b where "b = k * a"
  have "(\<Sum>i\<leftarrow>[1..<Suc k + 1]. (i - 1) * 2 ^ (i - 1)) = S + b"
    by (simp add: S_def a_def b_def)
  moreover have "S + 2 * a = b + 2" using Suc by (simp only: S_def a_def b_def)
  moreover have "(2::nat) ^ Suc k = 2 * a" by (simp add: a_def)
  moreover have "Suc k * (2 * a) = 2 * b + 2 * a" by (simp add: b_def)
  ultimately show ?case by (simp only:)
qed

lemma total_double: "2 * sum_list (map evals (fst (P f k (Some x)))) = k * 2 ^ k"
proof (induction k arbitrary: x rule: less_induct)
  case (less k)
  let ?tot = "\<lambda>i. sum_list (map evals (fst (P f (i - 1) (Some ((f ^^ (2 ^ k - 2 ^ i)) x)))))"
  have "map (\<lambda>i. 2 * ?tot i) [1..<k + 1] = map (\<lambda>i. (i - 1) * 2 ^ (i - 1)) [1..<k + 1]"
  proof (rule map_cong [OF refl])
    fix i assume "i \<in> set [1..<k + 1]"
    then have "i - 1 < k" by (auto simp del: upt_Suc)
    then show "2 * ?tot i = (i - 1) * 2 ^ (i - 1)" by (rule less)
  qed
  then have "2 * (\<Sum>i\<leftarrow>[1..<k + 1]. ?tot i) = (\<Sum>i\<leftarrow>[1..<k + 1]. (i - 1) * 2 ^ (i - 1))"
    by (simp only: sum_list_const_mult [symmetric])
  moreover have "(1::nat) \<le> 2 ^ k" by simp
  moreover note pow_sum [of k]
  ultimately have "2 * (2 ^ k - 1 + (\<Sum>i\<leftarrow>[1..<k + 1]. ?tot i)) = k * 2 ^ k"
    by (simp only: distrib_left)
  then show ?case by (simp only: total_rec [of f k x])
qed

text \<open>
  C4, as stated, puts the total number of calls of \<open>f\<close> in a whole traversal, the
  build phases of all sub-generators included, at \<open>2 ^ k - 1\<close>. For order \<open>2\<close> the total
  is \<open>4\<close>, not \<open>3\<close>: the sub-generator of order \<open>1\<close> recomputes one chain value.
\<close>

theorem total_evals_counterexample:
  "sum_list (map evals (fst (P Suc 2 (Some (1::nat))))) \<noteq> 2 ^ 2 - 1"
proof -
  have "2 * sum_list (map evals (fst (P Suc 2 (Some (1::nat))))) = 2 * 2 ^ 2"
    by (rule total_double)
  then show ?thesis by simp
qed

text \<open>
  C4, amended: the total number of calls of \<open>f\<close> in a whole traversal of order \<open>k\<close>,
  the build phases of all sub-generators included, is \<open>k * 2 ^ (k - 1)\<close>; the
  pebbler's own build phase (its first \<open>2 ^ k - 1\<close> rounds) accounts for exactly
  \<open>2 ^ k - 1\<close> of them.
\<close>

theorem total_evals:
  "sum_list (map evals (fst (P f k (Some x)))) = k * 2 ^ (k - 1)
   \<and> sum_list (map evals (take (2 ^ k - 1) (fst (P f k (Some x))))) = 2 ^ k - 1"
proof
  show "sum_list (map evals (fst (P f k (Some x)))) = k * 2 ^ (k - 1)"
  proof (cases k)
    case 0
    then show ?thesis using total_double [of f k x] by simp
  next
    case (Suc j)
    have "2 * sum_list (map evals (fst (P f k (Some x)))) = 2 * (Suc j * 2 ^ j)"
      using total_double [of f k x] Suc by simp
    then show ?thesis using Suc by simp
  qed
  show "sum_list (map evals (take (2 ^ k - 1) (fst (P f k (Some x))))) = 2 ^ k - 1"
    unfolding P_rounds [of f k x] by (simp add: build_rounds_props(2) sum_evals_build)
qed

section \<open>The state at the end of the build phase\<close>

lemma length_final_slots [simp]: "length (final_slots f k x) = k + 1"
  by (simp add: final_slots_def)

lemma sub_generators_slots:
  "sub_generators f k x = map (\<lambda>i. P f (i - 1) (final_slots f k x ! i)) [1..<k + 1]"
  unfolding sub_generators_def
  by (rule map_cong [OF refl]) (simp add: final_slots_nth del: upt_Suc)

text \<open>
  C8: on a seed \<open>x\<close>, the build loop of \<^verbatim>\<open>P(k, x)\<close> ends after \<open>2 ^ k - 1\<close> rounds without
  an exception, with the cursor at slot \<open>0\<close> and no advance left. Then slot \<open>0\<close>
  holds \<open>f\<close> applied \<open>2 ^ k - 1\<close> times to \<open>x\<close>, which is the value of the next round (the
  first value emitted); every slot \<open>j < k\<close> holds \<open>f\<close> applied \<open>2 ^ k - 2 ^ j\<close> times to
  \<open>x\<close>; slot \<open>k\<close> still holds \<open>x\<close>; and the rest of the run is the interleaving of the
  \<open>k\<close> sub-generators \<^verbatim>\<open>P(i-1, y[i])\<close>, \<open>i = 1, \<dots>, k\<close>, each seeded from slot \<open>i\<close>.
\<close>

theorem after_build:
  "\<exists>B y. build f k (map int [1..<2 ^ k]) (replicate k None @ [Some x], int k, 0) = (B, Inr (y, 0, 0))
      \<and> length B = 2 ^ k - 1 \<and> length y = k + 1
      \<and> y ! 0 = Some ((f ^^ (2 ^ k - 1)) x)
      \<and> (\<forall>j<k. y ! j = Some ((f ^^ (2 ^ k - 2 ^ j)) x))
      \<and> y ! k = Some x
      \<and> out (fst (P f k (Some x)) ! (2 ^ k - 1)) = y ! 0
      \<and> seeds y [1..<k + 1] = Inr (map (\<lambda>i. y ! i) [1..<k + 1])
      \<and> P f k (Some x) =
          (case emit y (zip_longest (map (\<lambda>i. P f (i - 1) (y ! i)) [1..<k + 1])) of
             (rounds', e) \<Rightarrow> (B @ \<lparr>out = y ! 0, evals = 0, held = [y]\<rparr> # rounds', e))"
proof (intro exI [of _ "build_rounds f k x"] exI [of _ "final_slots f k x"] conjI allI impI)
  show "build f k (map int [1..<2 ^ k]) (replicate k None @ [Some x], int k, 0)
      = (build_rounds f k x, Inr (final_slots f k x, 0, 0))"
    by (rule build_rounds_props(1))
  show "length (build_rounds f k x) = 2 ^ k - 1" by (rule build_rounds_props(2))
  show "length (final_slots f k x) = k + 1" by simp
  show y0: "final_slots f k x ! 0 = Some ((f ^^ (2 ^ k - 1)) x)"
    using final_slots_nth [of 0 k f x] by simp
  show "final_slots f k x ! j = Some ((f ^^ (2 ^ k - 2 ^ j)) x)" if "j < k" for j
    using that by (simp add: final_slots_nth)
  show "final_slots f k x ! k = Some x"
    using final_slots_nth [of k k f x] by simp
  show "out (fst (P f k (Some x)) ! (2 ^ k - 1)) = final_slots f k x ! 0"
    unfolding P_nth_first y0 by (simp add: first_round_def)
  show "seeds (final_slots f k x) [1..<k + 1] = Inr (map (\<lambda>i. final_slots f k x ! i) [1..<k + 1])"
    by (rule seeds_nth) (simp del: upt_Suc)
  show "P f k (Some x) =
          (case emit (final_slots f k x)
                  (zip_longest (map (\<lambda>i. P f (i - 1) (final_slots f k x ! i)) [1..<k + 1])) of
             (rounds', e) \<Rightarrow>
               (build_rounds f k x
                  @ \<lparr>out = final_slots f k x ! 0, evals = 0, held = [final_slots f k x]\<rparr> # rounds', e))"
    unfolding y0 sub_generators_slots [symmetric] first_round_def [symmetric] by (rule P_unfold)
qed

text \<open>C8 at order \<open>2\<close> with \<open>f = Suc\<close> and seed \<open>1\<close>: the slots are \<open>4, 3, 1\<close>.\<close>

theorem after_build_witness:
  "\<exists>B y. build Suc 2 (map int [1..<2 ^ 2]) (replicate 2 None @ [Some (1::nat)], int 2, 0) = (B, Inr (y, 0, 0))
      \<and> y ! 0 = Some 4 \<and> (1::nat) < 2 \<and> y ! 1 = Some 3 \<and> y ! 2 = Some 1
      \<and> out (fst (P Suc 2 (Some 1)) ! 3) = Some 4"
proof -
  from after_build [of Suc 2 1]
  obtain B y where
    b: "build Suc 2 (map int [1..<2 ^ 2]) (replicate 2 None @ [Some (1::nat)], int 2, 0) = (B, Inr (y, 0, 0))"
    and y0: "y ! 0 = Some ((Suc ^^ (2 ^ 2 - 1)) 1)"
    and yj: "\<forall>j<2. y ! j = Some ((Suc ^^ (2 ^ 2 - 2 ^ j)) 1)"
    and yk: "y ! 2 = Some 1"
    and o: "out (fst (P Suc 2 (Some 1)) ! (2 ^ 2 - 1)) = y ! 0"
    by blast
  have lt: "(1::nat) < 2" by simp
  from yj lt have y1: "y ! 1 = Some ((Suc ^^ (2 ^ 2 - 2 ^ 1)) 1)" by blast
  have "y ! 0 = Some 4" using y0 by simp
  moreover have "y ! 1 = Some 3" using y1 by simp
  moreover have "out (fst (P Suc 2 (Some 1)) ! 3) = Some 4" using o y0 by simp
  ultimately show ?thesis using b yk lt by blast
qed

section \<open>The selection among the sub-generators\<close>

lemma first_value_least:
  "filter (\<lambda>c. c \<noteq> None) v \<noteq> [] \<Longrightarrow>
     \<exists>j<length v. v ! j = first_value v \<and> v ! j \<noteq> None \<and> (\<forall>j'<j. v ! j' = None)"
proof (induction v)
  case Nil
  then show ?case by simp
next
  case (Cons c v)
  show ?case
  proof (cases c)
    case None
    with Cons.prems have "filter (\<lambda>c. c \<noteq> None) v \<noteq> []" by simp
    from Cons.IH [OF this] obtain j where j: "j < length v" "v ! j = first_value v"
      "v ! j \<noteq> None" "\<forall>j'<j. v ! j' = None" by blast
    have fv: "first_value (c # v) = first_value v" using None by (simp add: first_value_def)
    have "\<forall>j'<Suc j. (c # v) ! j' = None"
    proof (intro allI impI)
      fix j' assume "j' < Suc j"
      then show "(c # v) ! j' = None" using None j(4) by (cases j') simp_all
    qed
    with j fv show ?thesis by (intro exI [of _ "Suc j"]) simp
  next
    case (Some b)
    then have "first_value (c # v) = c" by (simp add: first_value_def)
    with Some show ?thesis by (intro exI [of _ 0]) simp
  qed
qed

lemma length_tuple_subs [simp]:
  "length (tuple_of (map (\<lambda>s. step_of s t) (sub_generators f k x))) = k"
  by (simp add: tuple_of_def sub_generators_def)

lemma tuple_subs: 
  "tuple_of (map (\<lambda>s. step_of s t) (sub_generators f k x)) = map (sub_out f k x t) [1..<k + 1]"
  by (rule sub_generators_props(3)) (rule traversal_ok_all)

lemma tuple_subs_pick:
  assumes "t < 2 ^ k - 1"
  shows "filter (\<lambda>c. c \<noteq> None) (tuple_of (map (\<lambda>s. step_of s t) (sub_generators f k x))) \<noteq> []"
    and "first_value (tuple_of (map (\<lambda>s. step_of s t) (sub_generators f k x)))
           = Some ((f ^^ (2 ^ k - 2 - t)) x)"
proof -
  have "filter (\<lambda>c. c \<noteq> None) (tuple_of (map (\<lambda>s. step_of s t) (sub_generators f k x))) \<noteq> []
         \<and> first_value (tuple_of (map (\<lambda>s. step_of s t) (sub_generators f k x)))
             = Some ((f ^^ (2 ^ k - 2 - t)) x)"
    by (rule row_first_value [OF _ assms]) (rule traversal_ok_all)
  then show "filter (\<lambda>c. c \<noteq> None) (tuple_of (map (\<lambda>s. step_of s t) (sub_generators f k x))) \<noteq> []"
    and "first_value (tuple_of (map (\<lambda>s. step_of s t) (sub_generators f k x)))
           = Some ((f ^^ (2 ^ k - 2 - t)) x)"
    by blast+
qed

text \<open>
  C6: in every emission round after the first (round \<open>2 ^ k + 1 + t\<close> with
  \<open>t < 2 ^ k - 1\<close>; it is at list position \<open>2 ^ k + t\<close>), the value the pebbler yields is
  \<^verbatim>\<open>next(filter(None, v))\<close> for the tuple \<open>v\<close> that polling the \<open>k\<close> sub-generators in
  ascending order \<open>i = 1, \<dots>, k\<close> gives: it is the entry of the first sub-generator
  whose result is not \<^verbatim>\<open>None\<close>, every sub-generator before it having given \<^verbatim>\<open>None\<close>.
\<close>

theorem selection_rule:
  "t < 2 ^ k - 1 \<Longrightarrow>
     (let v = tuple_of (map (\<lambda>s. step_of s t) (sub_generators f k x));
          b = out (fst (P f k (Some x)) ! (2 ^ k + t))
      in length v = k \<and> pick v = Inr b
         \<and> (\<exists>j<k. v ! j = b \<and> v ! j \<noteq> None \<and> (\<forall>j'<j. v ! j' = None)))"
proof -
  assume t: "t < 2 ^ k - 1"
  let ?v = "tuple_of (map (\<lambda>s. step_of s t) (sub_generators f k x))"
  have b: "out (fst (P f k (Some x)) ! (2 ^ k + t)) = first_value ?v"
    unfolding P_nth_emission [OF t] by (simp add: round_of_def)
  have "pick ?v = Inr (first_value ?v)"
    by (rule pick_first_value) (rule tuple_subs_pick(1) [OF t])
  moreover from first_value_least [OF tuple_subs_pick(1) [OF t, of f x]]
  have "\<exists>j<k. ?v ! j = first_value ?v \<and> ?v ! j \<noteq> None \<and> (\<forall>j'<j. ?v ! j' = None)"
    by simp
  ultimately show ?thesis unfolding Let_def b by simp
qed

text \<open>C6 at order \<open>2\<close>, in the first round after the first emitted value.\<close>

theorem selection_rule_witness:
  "(0::nat) < 2 ^ 2 - 1
   \<and> (let v = tuple_of (map (\<lambda>s. step_of s 0) (sub_generators Suc 2 (1::nat)));
          b = out (fst (P Suc 2 (Some 1)) ! (2 ^ 2 + 0))
      in length v = 2 \<and> pick v = Inr b
         \<and> (\<exists>j<2. v ! j = b \<and> v ! j \<noteq> None \<and> (\<forall>j'<j. v ! j' = None)))"
proof -
  have t: "(0::nat) < 2 ^ 2 - 1" by simp
  from selection_rule [OF t, of Suc 1] t show ?thesis by blast
qed

section \<open>Exactly one sub-generator is ready in each round\<close>

lemma ready_unique:
  assumes "Suc t < 2 ^ k"
  shows "\<exists>!j. j < k \<and> 2 ^ j \<le> Suc t \<and> Suc t < 2 ^ Suc j"
proof (rule ex1I [of _ "bit_length_nat (Suc t) - 1"])
  define i where "i = bit_length_nat (Suc t)"
  have up: "Suc t < 2 ^ i" unfolding i_def by (rule bl_upper)
  have lo: "2 ^ (i - 1) \<le> Suc t" unfolding i_def by (rule bl_lower) simp
  have ik: "i \<le> k" unfolding i_def using assms by (rule bl_le)
  have i1: "1 \<le> i" using up by (cases i) simp_all
  then have "Suc (i - 1) = i" by simp
  with up lo ik i1
  show "bit_length_nat (Suc t) - 1 < k \<and> 2 ^ (bit_length_nat (Suc t) - 1) \<le> Suc t
          \<and> Suc t < 2 ^ Suc (bit_length_nat (Suc t) - 1)"
    unfolding i_def [symmetric] by simp
next
  fix j assume "j < k \<and> 2 ^ j \<le> Suc t \<and> Suc t < 2 ^ Suc j"
  then have "bit_length_nat (Suc t) = Suc j" by (intro bl_unique) simp_all
  then show "j = bit_length_nat (Suc t) - 1" by simp
qed

lemma tuple_subs_nth:
  assumes "j < k"
  shows "tuple_of (map (\<lambda>s. step_of s t) (sub_generators f k x)) ! j
           = (if 2 ^ j \<le> Suc t \<and> Suc t < 2 ^ Suc j then Some ((f ^^ (2 ^ k - 2 - t)) x) else None)"
  unfolding tuple_subs using assms by (simp add: sub_out_def del: upt_Suc)

lemma tuple_subs_orders:
  "tuple_of (map (\<lambda>s. step_of s t) (sub_generators f k x))
     = map (\<lambda>j. case step_of (P f j (Some ((f ^^ (2 ^ k - 2 ^ Suc j)) x))) t of
                  None \<Rightarrow> None | Some r \<Rightarrow> out r) [0..<k]"
proof -
  have "[1..<k + 1] = map Suc [0..<k]" by (simp add: map_Suc_upt del: upt_Suc)
  then show ?thesis
    unfolding sub_generators_def tuple_of_def by (simp add: comp_def del: upt_Suc)
qed

text \<open>
  C10: in every round of the final loop of \<^verbatim>\<open>P(k, x)\<close> (step \<open>t\<close> of \<^verbatim>\<open>zip_longest\<close>
  counted from \<open>0\<close>, that is delegation round \<open>t + 1\<close>, with \<open>t < 2 ^ k - 1\<close>), the tuple
  \<open>v\<close> has the entry of the sub-generator of order \<open>j\<close> at position \<open>j\<close>; that entry is
  not \<^verbatim>\<open>None\<close> exactly when \<open>2 ^ j \<le> t + 1 < 2 ^ (j + 1)\<close>; exactly one order \<open>j < k\<close>
  satisfies this, so exactly one entry is not \<^verbatim>\<open>None\<close>, and \<^verbatim>\<open>next(filter(None, v))\<close>
  returns a value instead of raising.
\<close>

theorem exactly_one_ready:
  "t < 2 ^ k - 1 \<Longrightarrow>
     (let v = map (\<lambda>j. case step_of (P f j (Some ((f ^^ (2 ^ k - 2 ^ Suc j)) x))) t of
                         None \<Rightarrow> None | Some r \<Rightarrow> out r) [0..<k]
      in v = tuple_of (map (\<lambda>s. step_of s t) (sub_generators f k x))
         \<and> (\<forall>j<k. v ! j \<noteq> None \<longleftrightarrow> 2 ^ j \<le> Suc t \<and> Suc t < 2 ^ Suc j)
         \<and> (\<exists>!j. j < k \<and> 2 ^ j \<le> Suc t \<and> Suc t < 2 ^ Suc j)
         \<and> (\<exists>!j. j < k \<and> v ! j \<noteq> None)
         \<and> (\<exists>b. pick v = Inr (Some b)))"
proof -
  assume t: "t < 2 ^ k - 1"
  let ?v = "tuple_of (map (\<lambda>s. step_of s t) (sub_generators f k x))"
  have nth: "\<forall>j<k. ?v ! j \<noteq> None \<longleftrightarrow> 2 ^ j \<le> Suc t \<and> Suc t < 2 ^ Suc j"
    by (simp add: tuple_subs_nth)
  have "Suc t < 2 ^ k" using t by simp
  then have u: "\<exists>!j. j < k \<and> 2 ^ j \<le> Suc t \<and> Suc t < 2 ^ Suc j" by (rule ready_unique)
  have u': "\<exists>!j. j < k \<and> ?v ! j \<noteq> None"
  proof -
    have "(j < k \<and> ?v ! j \<noteq> None) = (j < k \<and> 2 ^ j \<le> Suc t \<and> Suc t < 2 ^ Suc j)" for j
      using nth by blast
    then show ?thesis using u by simp
  qed
  have "pick ?v = Inr (Some ((f ^^ (2 ^ k - 2 - t)) x))"
    using pick_first_value [OF tuple_subs_pick(1) [OF t, of f x]] tuple_subs_pick(2) [OF t, of f x]
    by simp
  then have p: "\<exists>b. pick ?v = Inr (Some b)" by blast
  show ?thesis
    unfolding Let_def tuple_subs_orders [symmetric] using nth u u' p by blast
qed

text \<open>
  C10 at order \<open>2\<close>, delegation round \<open>3\<close>: the sub-generator of order \<open>1\<close> is the one
  that is ready.
\<close>

theorem exactly_one_ready_witness:
  "(2::nat) < 2 ^ 2 - 1 \<and>
     (let v = map (\<lambda>j. case step_of (P Suc j (Some ((Suc ^^ (2 ^ 2 - 2 ^ Suc j)) (1::nat)))) 2 of
                         None \<Rightarrow> None | Some r \<Rightarrow> out r) [0..<2]
      in ((1::nat) < 2 \<and> (v ! 1 \<noteq> None \<longleftrightarrow> (2::nat) ^ 1 \<le> Suc 2 \<and> Suc 2 < (2::nat) ^ Suc 1))
         \<and> (\<exists>b. pick v = Inr (Some b)))"
proof -
  have t: "(2::nat) < 2 ^ 2 - 1" by simp
  have j: "(1::nat) < 2" by simp
  from exactly_one_ready [OF t, of Suc 1] t j show ?thesis unfolding Let_def by blast
qed

section \<open>The schedule does not depend on the Blocks\<close>

lemma slots_empty:
  "j \<le> k \<Longrightarrow> map (\<lambda>c. c = None) (slots f k x j m) = replicate j True @ replicate (Suc k - j) False"
  by (simp add: slots_def comp_def map_replicate_const Suc_diff_le del: upt_Suc)

lemma building_cursor_unique:
  assumes "m + 2 ^ j \<le> (2::nat) ^ k" "j < k \<longrightarrow> 2 ^ k < m + 2 * 2 ^ j"
    and "m + 2 ^ j' \<le> (2::nat) ^ k" "j' < k \<longrightarrow> 2 ^ k < m + 2 * 2 ^ j'"
    and "j \<le> k" "j' \<le> k" "j < j'"
  shows False
proof -
  have "Suc j \<le> j'" using assms(7) by simp
  then have "(2::nat) ^ Suc j \<le> 2 ^ j'" by (intro power_increasing) simp_all
  moreover have "2 ^ k < m + 2 * 2 ^ j" using assms by simp
  ultimately show False using assms(3) by simp
qed

lemma building_empty:
  assumes "building f k x m s" "building f' k x' m s'"
  shows "map (\<lambda>c. c = None) (fst s) = map (\<lambda>c. c = None) (fst s')"
proof -
  from assms(1) obtain j where j: "j \<le> k"
    and s: "s = (slots f k x j m, int j, of_nat (2 ^ k - 2 ^ j - m))"
    and le: "m + 2 ^ j \<le> 2 ^ k" and gt: "j < k \<longrightarrow> 2 ^ k < m + 2 * 2 ^ j"
    unfolding building_def by blast
  from assms(2) obtain j' where j': "j' \<le> k"
    and s': "s' = (slots f' k x' j' m, int j', of_nat (2 ^ k - 2 ^ j' - m))"
    and le': "m + 2 ^ j' \<le> 2 ^ k" and gt': "j' < k \<longrightarrow> 2 ^ k < m + 2 * 2 ^ j'"
    unfolding building_def by blast
  have "\<not> j < j'" using building_cursor_unique [OF le gt le' gt' j j'] by blast
  moreover have "\<not> j' < j" using building_cursor_unique [OF le' gt' le gt j' j] by blast
  ultimately have "j = j'" by simp
  then show ?thesis unfolding s s' using j by (simp add: slots_empty)
qed

lemma build_schedule:
  "building f k x (done_before k r) s \<Longrightarrow> building f' k x' (done_before k r) s' \<Longrightarrow>
     1 \<le> r \<Longrightarrow> r \<le> 2 ^ k \<Longrightarrow> d = 2 ^ k - r \<Longrightarrow>
     map schedule_of (fst (build f k (map int [r..<2 ^ k]) s))
       = map schedule_of (fst (build f' k (map int [r..<2 ^ k]) s'))"
proof (induction d arbitrary: r s s')
  case 0
  then show ?case by simp
next
  case (Suc d)
  then have r: "r < 2 ^ k" by simp
  then have upt: "[r..<2 ^ k] = r # [Suc r..<2 ^ k]" by (simp add: upt_conv_Cons)
  have le: "done_before k (Suc r) \<le> 2 ^ k - 1"
    using Suc.prems r by (intro done_before_le) simp_all
  then have lt: "done_before k r + nat (tS k (int r)) < 2 ^ k"
    using Suc.prems by (simp add: done_before_Suc)
  from advances_building [OF Suc.prems(1) lt]
  obtain s1 where s1: "advances f (nat (tS k (int r))) s = Inr s1"
    "building f k x (done_before k (Suc r)) s1"
    using Suc.prems by (auto simp: done_before_Suc)
  from advances_building [OF Suc.prems(2) lt]
  obtain s1' where s1': "advances f' (nat (tS k (int r))) s' = Inr s1'"
    "building f' k x' (done_before k (Suc r)) s1'"
    using Suc.prems by (auto simp: done_before_Suc)
  have IH: "map schedule_of (fst (build f k (map int [Suc r..<2 ^ k]) s1))
       = map schedule_of (fst (build f' k (map int [Suc r..<2 ^ k]) s1'))"
    using Suc.prems r by (intro Suc.IH [OF s1(2) s1'(2)]) simp_all
  have e: "map (\<lambda>c. c = None) (fst s1) = map (\<lambda>c. c = None) (fst s1')"
    by (rule building_empty [OF s1(2) s1'(2)])
  obtain B res where B: "build f k (map int [Suc r..<2 ^ k]) s1 = (B, res)"
    by (cases "build f k (map int [Suc r..<2 ^ k]) s1")
  obtain B' res' where B': "build f' k (map int [Suc r..<2 ^ k]) s1' = (B', res')"
    by (cases "build f' k (map int [Suc r..<2 ^ k]) s1'")
  have h: "schedule_of \<lparr>out = None, evals = nat (tS k (int r)), held = [fst s1]\<rparr>
      = schedule_of \<lparr>out = None, evals = nat (tS k (int r)), held = [fst s1']\<rparr>"
    using e by (simp add: schedule_of_def)
  show ?case
    unfolding upt using s1(1) s1'(1) IH B B' h by simp
qed

lemma build_rounds_schedule:
  "map schedule_of (build_rounds f k x) = map schedule_of (build_rounds f' k x')"
proof -
  have "building f k x (done_before k 1) (replicate k None @ [Some x], int k, 0)"
    "building f' k x' (done_before k 1) (replicate k None @ [Some x'], int k, 0)"
    using building_init [of f k x] building_init [of f' k x'] by simp_all
  from build_schedule [OF this, of "2 ^ k - 1"] show ?thesis
    by (simp add: build_rounds_def)
qed

lemma final_slots_full: "map (\<lambda>c. c = None) (final_slots f k x) = replicate (Suc k) False"
  by (simp add: final_slots_def comp_def map_replicate_const del: upt_Suc replicate_Suc)

lemma first_round_schedule: "schedule_of (first_round f k x) = (False, 0, [replicate (Suc k) False])"
  by (simp add: schedule_of_def first_round_def final_slots_full del: replicate_Suc)

lemma yielded_map: "yielded (map (map_option h) v) = map h (yielded v)"
  by (induction v rule: yielded.induct) simp_all

lemma first_value_None_iff: "first_value w = None \<longleftrightarrow> (\<forall>c\<in>set w. c = None)"
proof (induction w)
  case Nil
  then show ?case by (simp add: first_value_def)
next
  case (Cons c w)
  then show ?case by (cases c) (simp_all add: first_value_def)
qed

lemma tuple_all_None:
  "(\<forall>c\<in>set (tuple_of v). c = None) \<longleftrightarrow> (\<forall>r\<in>set (yielded v). out r = None)"
  by (induction v rule: yielded.induct) (simp_all add: tuple_of_def)

lemma round_of_schedule:
  "schedule_of (round_of y v) =
     ((\<forall>p\<in>set (yielded (map (map_option schedule_of) v)). fst p),
      sum_list (map (\<lambda>p. fst (snd p)) (yielded (map (map_option schedule_of) v))),
      map (\<lambda>c. c = None) y # concat (map (\<lambda>p. snd (snd p)) (yielded (map (map_option schedule_of) v))))"
  by (simp add: schedule_of_def round_of_def first_value_None_iff tuple_all_None yielded_map
      comp_def map_concat)

lemma step_of_schedule:
  "map_option schedule_of (step_of s t) = step_of (map schedule_of (fst s), snd s) t"
  by (simp add: step_of_def)

lemma emission_rounds_schedule:
  assumes IH: "\<And>j z z'. j < k \<Longrightarrow>
     map schedule_of (fst (P f j (Some z))) = map schedule_of (fst (P f' j (Some z')))"
  shows "map schedule_of (emission_rounds f k x) = map schedule_of (emission_rounds f' k x')"
proof -
  have rows: "map (map_option schedule_of) (map (\<lambda>s. step_of s t) (sub_generators f k x))
      = map (map_option schedule_of) (map (\<lambda>s. step_of s t) (sub_generators f' k x'))" for t
  proof -
    have "step_of (map schedule_of (fst (P f (i - 1) (Some ((f ^^ (2 ^ k - 2 ^ i)) x)))), None) t
        = step_of (map schedule_of (fst (P f' (i - 1) (Some ((f' ^^ (2 ^ k - 2 ^ i)) x')))), None) t"
      if "i \<in> set [1..<k + 1]" for i
    proof -
      from that have "i - 1 < k" by (auto simp del: upt_Suc)
      from IH [OF this, of "(f ^^ (2 ^ k - 2 ^ i)) x" "(f' ^^ (2 ^ k - 2 ^ i)) x'"]
      show ?thesis by simp
    qed
    then show ?thesis
      unfolding sub_generators_def
      by (simp add: comp_def step_of_schedule P_ok del: upt_Suc)
  qed
  have "schedule_of (round_of (final_slots f k x) (map (\<lambda>s. step_of s t) (sub_generators f k x)))
      = schedule_of (round_of (final_slots f' k x') (map (\<lambda>s. step_of s t) (sub_generators f' k x')))"
    for t
    unfolding round_of_schedule rows [of t] final_slots_full ..
  then show ?thesis
    unfolding emission_rounds_def rows_of_def by (simp add: comp_def)
qed

lemma P_schedule:
  "map schedule_of (fst (P f k (Some x))) = map schedule_of (fst (P f' k (Some x')))"
proof (induction k arbitrary: x x' rule: less_induct)
  case (less k)
  have "map schedule_of (emission_rounds f k x) = map schedule_of (emission_rounds f' k x')"
    by (rule emission_rounds_schedule) (rule less)
  then show ?case
    unfolding P_rounds [of f k x] P_rounds [of f' k x']
    by (simp add: build_rounds_schedule [of f k x f' x'] first_round_schedule del: replicate_Suc)
qed

text \<open>
  C7: the schedule of a run does not depend on the Blocks. For any two one-way
  functions \<open>f\<close> and \<open>f'\<close> and any two seeds \<open>x\<close> and \<open>x'\<close> (in particular for two seeds
  under the same \<open>f\<close>), \<^verbatim>\<open>P(k, x)\<close> and \<^verbatim>\<open>P(k, x')\<close> both end normally and agree, round by
  round, on whether the round yields \<^verbatim>\<open>None\<close> or a value, on the number of calls of the
  one-way function, and on which slots of which slot arrays are filled.
\<close>

theorem schedule_data_independent:
  "snd (P f k (Some x)) = None \<and> snd (P f' k (Some x')) = None
   \<and> map schedule_of (fst (P f k (Some x))) = map schedule_of (fst (P f' k (Some x')))"
  by (simp add: P_ok P_schedule [of f k x f' x'])

section \<open>Invalid orders\<close>

text \<open>
  C9, as stated, has the creation of a pebbler with an invalid order raise a
  configuration error at construction time and never later. \<^verbatim>\<open>P\<close> has no check of its
  order: creating the generator with order \<open>-1\<close> succeeds, and the error comes when the
  traversal starts, as the \<^verbatim>\<open>TypeError\<close> of \<^verbatim>\<open>range(1, 2**k)\<close>.
\<close>

theorem create_negative_order_counterexample:
  "create (- 1) (Some (1::nat)) = Inr (Created (- 1) (Some 1))
   \<and> traverse Suc (Created (- 1) (Some (1::nat))) = ([], Some TypeError)"
  by (simp add: create_def)

text \<open>
  C9, amended: creating the generator \<^verbatim>\<open>P(k, x)\<close> never raises, whatever the integer
  \<open>k\<close> is. For a negative order the first step of the traversal raises \<^verbatim>\<open>TypeError\<close>
  before any round is produced. For an order \<open>k \<ge> 0\<close> and a Block as seed, no exception
  is raised at any point of the traversal.
\<close>

theorem order_errors:
  "create k x = Inr (Created k x)
   \<and> (k < 0 \<longrightarrow> traverse f (Created k x) = ([], Some TypeError))
   \<and> (0 \<le> k \<longrightarrow> snd (traverse f (Created k (Some b))) = None)"
  by (simp add: create_def P_ok)

text \<open>The amended C9 at the orders \<open>-1\<close> and \<open>2\<close>.\<close>

theorem order_errors_witness:
  "(- 1 :: int) < 0 \<and> traverse Suc (Created (- 1) (Some (1::nat))) = ([], Some TypeError)
   \<and> (0::int) \<le> 2 \<and> snd (traverse Suc (Created 2 (Some (1::nat)))) = None"
proof -
  have n: "(- 1 :: int) < 0" and p: "(0::int) \<le> 2" by simp_all
  from order_errors [of "- 1" "Some (1::nat)" Suc 1] n
  have "traverse Suc (Created (- 1) (Some (1::nat))) = ([], Some TypeError)" by blast
  moreover from order_errors [of 2 "Some (1::nat)" Suc 1] p
  have "snd (traverse Suc (Created 2 (Some (1::nat)))) = None" by blast
  ultimately show ?thesis using n p by blast
qed

section \<open>Blocks held during a traversal\<close>

text \<open>
  C5 bounds the number of Blocks held in the slot arrays of the pebbler and of its
  running sub-generators by \<open>k + 1\<close>. The run of \<^verbatim>\<open>P(2, x)\<close> with \<open>f = Suc\<close> and \<open>x = 1\<close>
  at its round \<open>5\<close> (list position \<open>4\<close>): the pebbler's array still holds the three
  values of the build phase, the sub-generator of order \<open>0\<close> holds its seed and the
  sub-generator of order \<open>1\<close> holds two values. That is six filled slots and four
  different Blocks, against the bound \<open>2 + 1\<close>.
\<close>

theorem held_at_order_2:
  "held (fst (P Suc 2 (Some (1::nat))) ! 4) = [[Some 4, Some 3, Some 1], [Some 3], [Some 2, Some 1]]
   \<and> live_blocks (fst (P Suc 2 (Some (1::nat))) ! 4) = 6
   \<and> distinct_blocks (fst (P Suc 2 (Some (1::nat))) ! 4) = 4
   \<and> \<not> live_blocks (fst (P Suc 2 (Some (1::nat))) ! 4) \<le> 2 + 1
   \<and> \<not> distinct_blocks (fst (P Suc 2 (Some (1::nat))) ! 4) \<le> 2 + 1"
  by code_simp

end
